theory Spec2Isabelle
  imports Main "HOL-Library.Word" "HOL-Library.Multiset"
begin

unbundle bit_operations_syntax

section \<open>The fast hash table of \<^verbatim>\<open>src/fast-ht.c\<close>\<close>

text \<open>
  The table maps caller-supplied 64-bit hash values to opaque pointers. A bucket owns a
  singly linked chain of bags, a bag is an array of \<^verbatim>\<open>FASTHT_BAGSZ\<close> nodes, and a node
  with hash value zero is an empty or deleted slot.

  The C functions \<^verbatim>\<open>__hash\<close>, \<^verbatim>\<open>__insert\<close>, \<^verbatim>\<open>__insert_quick\<close> and \<^verbatim>\<open>__findx\<close> are
  named \<open>ht_hash\<close>, \<open>hb_insert\<close>, \<open>hb_insert_quick\<close> and \<open>ht_findx\<close> here (an
  identifier cannot start with an underscore); struct fields carry the name of their
  struct as a prefix, since \<^verbatim>\<open>hb\<close> and \<^verbatim>\<open>ht\<close> both have a field \<^verbatim>\<open>n\<close>.
\<close>

subsection \<open>Data model\<close>

type_synonym u64 = "64 word"

text \<open>A \<^verbatim>\<open>void *\<close> is an address; \<^verbatim>\<open>NULL\<close> is 0.\<close>

type_synonym ptr = "64 word"

text \<open>
  Modelled from the spec: the header \<^verbatim>\<open>utils/fast-ht.h\<close>, which declares the structs
  \<^verbatim>\<open>hn\<close>, \<^verbatim>\<open>bag\<close>, \<^verbatim>\<open>hb\<close>, \<^verbatim>\<open>ht\<close> and the constants \<^verbatim>\<open>FASTHT_BAGSZ\<close> and
  \<^verbatim>\<open>FILLPCT\<close>, is not among the sources. The fields are the ones \<^verbatim>\<open>fast-ht.c\<close> uses.
  The hash value, the bucket count and the salt are 64-bit words, as the C file's own
  declarations (\<^verbatim>\<open>uint64_t hv\<close>, \<^verbatim>\<open>uint64_t n = h->n * 2\<close>, \<^verbatim>\<open>uint64_t salt\<close>) show. The
  width of the statistics counters is declared nowhere in the sources or the spec: they
  are natural numbers. The spec gives 8 slots per bag and a fill threshold of 50 percent.
\<close>

definition FASTHT_BAGSZ :: nat where
  "FASTHT_BAGSZ = 8"

definition FILLPCT :: nat where
  "FILLPCT = 50"

record hn =
  hn_h :: u64
  hn_v :: ptr

text \<open>A bag is its array \<^verbatim>\<open>a\<close> of nodes; the \<^verbatim>\<open>link\<close> field is the list structure of
  the chain, head first.\<close>

type_synonym bag = "hn list"

record hb =
  hb_head :: "bag list"
  hb_n :: nat
  hb_bags :: nat

record ht =
  ht_b :: "hb list"
  ht_n :: u64
  ht_rand :: u64
  ht_nodes :: nat
  ht_fill :: nat
  ht_splits :: nat
  ht_bagmax :: nat
  ht_maxn :: nat

text \<open>The static constant \<^verbatim>\<open>zn\<close> of \<^verbatim>\<open>__findx\<close>, which is also what a zeroed
  allocation holds in every slot.\<close>

definition zn :: hn where
  "zn = \<lparr>hn_h = 0, hn_v = 0\<rparr>"

text \<open>\<^verbatim>\<open>NEWZ(bag)\<close>: a zeroed bag. \<^verbatim>\<open>NEWZA(hb, n)\<close>: \<open>n\<close> zeroed buckets.\<close>

definition new_bag :: bag where
  "new_bag = replicate FASTHT_BAGSZ zn"

definition new_hb :: hb where
  "new_hb = \<lparr>hb_head = [], hb_n = 0, hb_bags = 0\<rparr>"

text \<open>Return codes: \<^verbatim>\<open>ht_probe\<close> and \<^verbatim>\<open>__insert\<close> return 0 for a fresh insertion and
  1 for a duplicate; \<^verbatim>\<open>ht_find\<close> and \<^verbatim>\<open>ht_remove\<close> return 1 and store the value through
  \<^verbatim>\<open>p_ret\<close> when the hash value is found, 0 otherwise.\<close>

datatype probe_result = Inserted | Exists

datatype lookup = Found ptr | NotFound

subsection \<open>The index function\<close>

text \<open>The macro \<^verbatim>\<open>mix(h)\<close>: three assignments to its argument, whose last value is the
  value of the macro.\<close>

definition mix :: "u64 \<Rightarrow> u64" where
  "mix x =
     (let x1 = x XOR drop_bit 23 x;
          x2 = x1 * 0x2127599bf4325c37;
          x3 = x2 XOR drop_bit 47 x2
      in x3)"

definition ht_hash :: "u64 \<Rightarrow> u64 \<Rightarrow> u64 \<Rightarrow> u64" where
  "ht_hash hv n salt =
     (let m = 0x880355f21e6d1965;
          x0 = 8 * m;
          x1 = x0 XOR mix hv;
          x2 = x1 * m;
          hv' = mix x2 XOR salt
      in hv' AND (n - 1))"

subsection \<open>Scanning a bucket\<close>

text \<open>
  The macros \<^verbatim>\<open>FIND\<close>, \<^verbatim>\<open>PUT\<close> and \<^verbatim>\<open>SRCH\<close> walk the slots of a bag from \<^verbatim>\<open>a[0]\<close>
  upwards, inside a walk of the chain from its head; with \<^verbatim>\<open>FASTHT_BAGSZ\<close> equal to 8
  the \<^verbatim>\<open>switch\<close> enters at \<^verbatim>\<open>case 8\<close> and visits every slot. \<open>scan_chain\<close> gives the
  position (bag, slot) of the first slot on that walk that satisfies the test.
\<close>

fun scan_bag :: "(hn \<Rightarrow> bool) \<Rightarrow> bag \<Rightarrow> nat option" where
  "scan_bag P [] = None"
| "scan_bag P (x # xs) = (if P x then Some 0 else map_option Suc (scan_bag P xs))"

fun scan_chain :: "(hn \<Rightarrow> bool) \<Rightarrow> bag list \<Rightarrow> (nat \<times> nat) option" where
  "scan_chain P [] = None"
| "scan_chain P (g # gs) =
     (case scan_bag P g of
        Some i \<Rightarrow> Some (0, i)
      | None \<Rightarrow> map_option (\<lambda>(k, i). (Suc k, i)) (scan_chain P gs))"

text \<open>The assignment \<^verbatim>\<open>*pos = ...\<close> to the slot at a position.\<close>

definition store :: "bag list \<Rightarrow> nat \<times> nat \<Rightarrow> hn \<Rightarrow> bag list" where
  "store gs pos p = (case pos of (k, i) \<Rightarrow> gs[k := (gs ! k)[i := p]])"

definition slot :: "bag list \<Rightarrow> nat \<times> nat \<Rightarrow> hn" where
  "slot gs pos = (case pos of (k, i) \<Rightarrow> gs ! k ! i)"

text \<open>
  \<^verbatim>\<open>__insert\<close>: a slot with the hash value of \<open>p\<close> anywhere in the chain makes it return 1
  with nothing written. Otherwise \<open>p\<close> goes to the first slot with hash value zero, or to
  slot 0 of a new bag at the head of the chain.
\<close>

definition hb_insert :: "hb \<Rightarrow> hn \<Rightarrow> probe_result \<times> hb" where
  "hb_insert b p =
     (case scan_chain (\<lambda>x. hn_h x = hn_h p) (hb_head b) of
        Some _ \<Rightarrow> (Exists, b)
      | None \<Rightarrow>
          (case scan_chain (\<lambda>x. hn_h x = 0) (hb_head b) of
             Some pos \<Rightarrow>
               (Inserted, b\<lparr>hb_head := store (hb_head b) pos p, hb_n := hb_n b + 1\<rparr>)
           | None \<Rightarrow>
               (Inserted, b\<lparr>hb_head := (new_bag[0 := p]) # hb_head b,
                             hb_bags := hb_bags b + 1,
                             hb_n := hb_n b + 1\<rparr>)))"

definition hb_insert_quick :: "hb \<Rightarrow> hn \<Rightarrow> hb" where
  "hb_insert_quick b p =
     (case scan_chain (\<lambda>x. hn_h x = 0) (hb_head b) of
        Some pos \<Rightarrow> b\<lparr>hb_head := store (hb_head b) pos p, hb_n := hb_n b + 1\<rparr>
      | None \<Rightarrow> b\<lparr>hb_head := (new_bag[0 := p]) # hb_head b,
                    hb_bags := hb_bags b + 1,
                    hb_n := hb_n b + 1\<rparr>)"

subsection \<open>Find and remove\<close>

text \<open>
  An access to the bucket array outside its allocation is undefined behaviour in C; the
  model returns \<open>None\<close> there. The flag \<open>zero\<close> is the C parameter of that name.
\<close>

definition ht_findx :: "ht \<Rightarrow> u64 \<Rightarrow> bool \<Rightarrow> (lookup \<times> ht) option" where
  "ht_findx t hv zero =
     (let i = unat (ht_hash hv (ht_n t) (ht_rand t)) in
      if length (ht_b t) \<le> i then None
      else
        let b = ht_b t ! i in
        (case scan_chain (\<lambda>x. hn_h x = hv) (hb_head b) of
           None \<Rightarrow> Some (NotFound, t)
         | Some pos \<Rightarrow>
             Some (Found (hn_v (slot (hb_head b) pos)),
                   if zero
                   then t\<lparr>ht_b := (ht_b t)[i := b\<lparr>hb_head := store (hb_head b) pos zn\<rparr>]\<rparr>
                   else t)))"

definition ht_find :: "ht \<Rightarrow> u64 \<Rightarrow> (lookup \<times> ht) option" where
  "ht_find t hv = ht_findx t hv False"

definition ht_remove :: "ht \<Rightarrow> u64 \<Rightarrow> (lookup \<times> ht) option" where
  "ht_remove t hv = ht_findx t hv True"

subsection \<open>Resize\<close>

text \<open>A loop whose body may fail: the first failure ends it.\<close>

fun fold_opt :: "('a \<Rightarrow> 's \<Rightarrow> 's option) \<Rightarrow> 'a list \<Rightarrow> 's \<Rightarrow> 's option" where
  "fold_opt f [] s = Some s"
| "fold_opt f (x # xs) s = (case f x s of None \<Rightarrow> None | Some s' \<Rightarrow> fold_opt f xs s')"

text \<open>The locals of \<^verbatim>\<open>resize\<close> that its loops update: the new bucket array \<^verbatim>\<open>b\<close> and
  the running statistics.\<close>

record rstate =
  rs_b :: "hb list"
  rs_maxbags :: nat
  rs_maxn :: nat
  rs_fill :: nat

text \<open>The body of the innermost loop, for the node \<open>p\<close> of an old bag, with the new
  bucket count \<open>n\<close> and the new salt.\<close>

definition move_node :: "u64 \<Rightarrow> u64 \<Rightarrow> hn \<Rightarrow> rstate \<Rightarrow> rstate option" where
  "move_node n salt p s =
     (if hn_h p \<noteq> 0 then
        let j = unat (ht_hash (hn_h p) n salt) in
        if length (rs_b s) \<le> j then None
        else
          let x = hb_insert_quick (rs_b s ! j) p in
          Some \<lparr>rs_b = (rs_b s)[j := x],
                rs_maxbags = (if hb_bags x > rs_maxbags s then hb_bags x else rs_maxbags s),
                rs_maxn = (if hb_n x > rs_maxn s then hb_n x else rs_maxn s),
                rs_fill = (if hb_n x = 1 then rs_fill s + 1 else rs_fill s)\<rparr>
      else Some s)"

text \<open>
  \<^verbatim>\<open>resize\<close>: the salt that \<^verbatim>\<open>arc4random_buf\<close> delivers is an argument. The three loops
  run over the old buckets, over the bags of a bucket and over the slots of a bag. The old
  array has the \<^verbatim>\<open>h->n\<close> buckets it was allocated with.
\<close>

definition resize :: "ht \<Rightarrow> u64 \<Rightarrow> ht option" where
  "resize t salt =
     (let n = ht_n t * 2;
          s0 = \<lparr>rs_b = replicate (unat n) new_hb, rs_maxbags = 0, rs_maxn = 0, rs_fill = 0\<rparr>
      in case fold_opt (\<lambda>ob. fold_opt (\<lambda>g. fold_opt (move_node n salt) g) (hb_head ob))
                (ht_b t) s0 of
           None \<Rightarrow> None
         | Some s \<Rightarrow>
             Some (t\<lparr>ht_rand := salt, ht_n := n, ht_b := rs_b s,
                     ht_bagmax := rs_maxbags s, ht_maxn := rs_maxn s,
                     ht_fill := rs_fill s\<rparr>))"

subsection \<open>The public operations\<close>

text \<open>The largest value of a C \<^verbatim>\<open>int\<close> of 32 bits.\<close>

definition INT_MAX :: int where
  "INT_MAX = 2 ^ 31 - 1"

text \<open>
  \<^verbatim>\<open>ht_init\<close>: in \<^verbatim>\<open>h->n = 1 << nlog2\<close> the constant 1 is an \<^verbatim>\<open>int\<close>, so the shift is
  done in \<^verbatim>\<open>int\<close> and only then converted to the 64 bits of \<^verbatim>\<open>h->n\<close>. C defines the
  result of the shift only when \<open>2 ^ nlog2\<close> is representable in an \<^verbatim>\<open>int\<close>; otherwise
  the behaviour is undefined and the model returns \<open>None\<close>. The salt that
  \<^verbatim>\<open>arc4random_buf\<close> delivers is an argument.
\<close>

definition ht_init :: "32 word \<Rightarrow> u64 \<Rightarrow> ht option" where
  "ht_init nlog2 salt =
     (let nlog2' = (if nlog2 = 0 then 10 else nlog2) in
      if INT_MAX < 2 ^ unat nlog2' then None
      else Some \<lparr>ht_b = replicate (2 ^ unat nlog2') new_hb,
                 ht_n = 2 ^ unat nlog2',
                 ht_rand = salt,
                 ht_nodes = 0, ht_fill = 0, ht_splits = 0, ht_bagmax = 0, ht_maxn = 0\<rparr>)"

text \<open>The last two statements of \<^verbatim>\<open>ht_probe\<close>, for the bucket \<open>b\<close>.\<close>

definition upd_stats :: "ht \<Rightarrow> hb \<Rightarrow> ht" where
  "upd_stats t b =
     (let t1 = (if hb_bags b > ht_bagmax t then t\<lparr>ht_bagmax := hb_bags b\<rparr> else t)
      in if hb_n b > ht_maxn t1 then t1\<lparr>ht_maxn := hb_n b\<rparr> else t1)"

text \<open>\<^verbatim>\<open>ht_probe\<close>; \<open>salt\<close> is what \<^verbatim>\<open>arc4random_buf\<close> delivers if the table is resized.\<close>

definition ht_probe :: "ht \<Rightarrow> u64 \<Rightarrow> ptr \<Rightarrow> u64 \<Rightarrow> (probe_result \<times> ht) option" where
  "ht_probe t hv v salt =
     (let i = unat (ht_hash hv (ht_n t) (ht_rand t)) in
      if length (ht_b t) \<le> i then None
      else
        (case hb_insert (ht_b t ! i) \<lparr>hn_h = hv, hn_v = v\<rparr> of
           (Exists, _) \<Rightarrow> Some (Exists, t)
         | (Inserted, b') \<Rightarrow>
             let t1 = t\<lparr>ht_b := (ht_b t)[i := b'], ht_nodes := ht_nodes t + 1\<rparr> in
             if hb_n b' = 1 then
               let t2 = t1\<lparr>ht_fill := ht_fill t1 + 1\<rparr> in
               if (ht_fill t2 * 100) div unat (1 + ht_n t2) > FILLPCT then
                 (case resize (t2\<lparr>ht_splits := ht_splits t2 + 1\<rparr>) salt of
                    None \<Rightarrow> None
                  | Some t3 \<Rightarrow>
                      let j = unat (ht_hash hv (ht_n t3) (ht_rand t3)) in
                      if length (ht_b t3) \<le> j then None
                      else Some (Inserted, upd_stats t3 (ht_b t3 ! j)))
               else Some (Inserted, upd_stats t2 b')
             else Some (Inserted, upd_stats t1 b')))"

subsection \<open>Histories\<close>

text \<open>The states that the public operations produce from a freshly initialised table.
  Every argument is allowed, the hash value zero included.\<close>

inductive reachable :: "ht \<Rightarrow> bool" where
  r_init: "ht_init nlog2 salt = Some t \<Longrightarrow> reachable t"
| r_probe: "reachable t \<Longrightarrow> ht_probe t hv v salt = Some (r, t') \<Longrightarrow> reachable t'"
| r_find: "reachable t \<Longrightarrow> ht_find t hv = Some (l, t') \<Longrightarrow> reachable t'"
| r_remove: "reachable t \<Longrightarrow> ht_remove t hv = Some (l, t') \<Longrightarrow> reachable t'"

text \<open>A history of calls, with what each call returned.\<close>

datatype op = Probe u64 ptr u64 | Find u64 | Remove u64

datatype outcome = Probed probe_result | Looked lookup

fun step :: "ht \<Rightarrow> op \<Rightarrow> (outcome \<times> ht) option" where
  "step t (Probe hv v salt) = map_option (\<lambda>(r, t'). (Probed r, t')) (ht_probe t hv v salt)"
| "step t (Find hv) = map_option (\<lambda>(l, t'). (Looked l, t')) (ht_find t hv)"
| "step t (Remove hv) = map_option (\<lambda>(l, t'). (Looked l, t')) (ht_remove t hv)"

fun run :: "ht \<Rightarrow> op list \<Rightarrow> (outcome list \<times> ht) option" where
  "run t [] = Some ([], t)"
| "run t (c # cs) =
     (case step t c of
        None \<Rightarrow> None
      | Some (r, t') \<Rightarrow> map_option (\<lambda>(rs, t''). (r # rs, t'')) (run t' cs))"

subsection \<open>What a table holds\<close>

text \<open>Every slot of a bucket, in the order of the scan, and every slot of the table.\<close>

definition chain_slots :: "hb \<Rightarrow> hn list" where
  "chain_slots b = concat (hb_head b)"

definition all_slots :: "ht \<Rightarrow> hn list" where
  "all_slots t = concat (map chain_slots (ht_b t))"

text \<open>The live nodes among some slots: the ones whose hash value is not the marker 0.\<close>

definition live :: "hn list \<Rightarrow> hn multiset" where
  "live xs = mset (filter (\<lambda>x. hn_h x \<noteq> 0) xs)"

text \<open>The hash value \<open>hv\<close> is present with the value \<open>v\<close>: a live node holds the pair.\<close>

definition present :: "ht \<Rightarrow> u64 \<Rightarrow> ptr \<Rightarrow> bool" where
  "present t hv v \<longleftrightarrow> hv \<noteq> 0 \<and> \<lparr>hn_h = hv, hn_v = v\<rparr> \<in> set (all_slots t)"

text \<open>No live node has the hash value \<open>hv\<close>.\<close>

definition absent :: "ht \<Rightarrow> u64 \<Rightarrow> bool" where
  "absent t hv \<longleftrightarrow> (\<forall>x \<in> set (all_slots t). hn_h x \<noteq> 0 \<longrightarrow> hn_h x \<noteq> hv)"

text \<open>The bucket that the table searches for a hash value.\<close>

definition bucket_of :: "ht \<Rightarrow> u64 \<Rightarrow> nat" where
  "bucket_of t hv = unat (ht_hash hv (ht_n t) (ht_rand t))"

text \<open>
  The invariant of the table: the bucket array has the \<^verbatim>\<open>h->n\<close> buckets of its
  allocation, a power of two; every live node lies in the bucket that its hash value
  selects; no two live nodes have the same hash value.
\<close>

definition shaped :: "ht \<Rightarrow> bool" where
  "shaped t \<longleftrightarrow> (\<exists>k<64. ht_n t = 2 ^ k \<and> length (ht_b t) = 2 ^ k)"

definition placed :: "u64 \<Rightarrow> u64 \<Rightarrow> hb list \<Rightarrow> bool" where
  "placed n salt bs \<longleftrightarrow>
     (\<forall>i<length bs. \<forall>x \<in># live (chain_slots (bs ! i)). unat (ht_hash (hn_h x) n salt) = i)"

definition uniq :: "hn multiset \<Rightarrow> bool" where
  "uniq M \<longleftrightarrow> (\<forall>hv. size (filter_mset (\<lambda>x. hn_h x = hv) M) \<le> 1)"

definition ht_inv :: "ht \<Rightarrow> bool" where
  "ht_inv t \<longleftrightarrow>
     shaped t \<and> placed (ht_n t) (ht_rand t) (ht_b t) \<and> uniq (live (all_slots t))"

text \<open>
  The shape of a bucket: \<^verbatim>\<open>b->bags\<close> is the length of its chain, every bag has the
  \<^verbatim>\<open>FASTHT_BAGSZ\<close> slots that the unrolled scans visit, and a bucket whose count
  \<^verbatim>\<open>b->n\<close> is 0 has no bag.
\<close>

definition hb_wf :: "hb \<Rightarrow> bool" where
  "hb_wf b \<longleftrightarrow>
     hb_bags b = length (hb_head b) \<and>
     (\<forall>g \<in> set (hb_head b). length g = FASTHT_BAGSZ) \<and>
     (hb_n b = 0 \<longrightarrow> hb_head b = [])"

definition ht_wf :: "ht \<Rightarrow> bool" where
  "ht_wf t \<longleftrightarrow> (\<forall>b \<in> set (ht_b t). hb_wf b)"

text \<open>What the loops of \<^verbatim>\<open>resize\<close> maintain: the new array keeps its length \<open>L\<close>, every
  node moved so far lies in the bucket that the new count and salt select, and the live
  nodes of the new array are the multiset \<open>M\<close>.\<close>

definition rs_ok :: "u64 \<Rightarrow> u64 \<Rightarrow> nat \<Rightarrow> rstate \<Rightarrow> hn multiset \<Rightarrow> bool" where
  "rs_ok n salt L s M \<longleftrightarrow>
     length (rs_b s) = L \<and> placed n salt (rs_b s) \<and> live (concat (map chain_slots (rs_b s))) = M"

text \<open>The probe of \<open>hv\<close> crosses the fill threshold: it goes to a bucket whose count
  \<^verbatim>\<open>b->n\<close> is 0, so that the count becomes 1 and \<^verbatim>\<open>h->fill\<close> is incremented, and the
  incremented fill makes \<^verbatim>\<open>(h->fill * 100) / (1 + h->n)\<close> exceed \<^verbatim>\<open>FILLPCT\<close>.\<close>

definition crosses :: "ht \<Rightarrow> u64 \<Rightarrow> bool" where
  "crosses t hv \<longleftrightarrow>
     hb_n (ht_b t ! bucket_of t hv) = 0 \<and>
     FILLPCT < ((ht_fill t + 1) * 100) div unat (1 + ht_n t)"

subsection \<open>Concrete tables\<close>

text \<open>
  A table of 4 buckets with salt 0, and the tables after the probes of the hash values
  1, 2 and 3, which fall into the buckets 2, 1 and 3; the third probe fills a third
  bucket and resizes the table to 8 buckets.
\<close>

definition grow0 :: ht where
  "grow0 = the (ht_init 2 0)"

definition grow1 :: ht where
  "grow1 = snd (the (ht_probe grow0 1 101 0))"

definition grow2 :: ht where
  "grow2 = snd (the (ht_probe grow1 2 102 0))"

definition grow3 :: ht where
  "grow3 = snd (the (ht_probe grow2 3 103 0))"

text \<open>
  A table of 2 buckets with salt 0, after the probes of the hash values 2, 3 and 1. The
  third probe resizes it to 4 buckets, of which the three nodes fill three.
\<close>

definition dense0 :: ht where
  "dense0 = the (ht_init 1 0)"

definition dense1 :: ht where
  "dense1 = snd (the (ht_probe dense0 2 102 0))"

definition dense2 :: ht where
  "dense2 = snd (the (ht_probe dense1 3 103 0))"

definition dense3 :: ht where
  "dense3 = snd (the (ht_probe dense2 1 101 0))"

definition dense4 :: ht where
  "dense4 = snd (the (ht_probe dense3 4 104 0))"

text \<open>A table of 4 buckets with salt 0 after the probe of the hash value 11, which
  falls into bucket 0, as the hash value 0 does.\<close>

definition single :: ht where
  "single = snd (the (ht_probe grow0 11 111 0))"

text \<open>A history on the table of 4 buckets: three fresh probes, of which the last one
  resizes the table, a duplicate probe, a removal and a find.\<close>

definition history :: "op list" where
  "history = [Probe 1 101 0, Probe 1 999 0, Probe 2 102 0, Remove 1, Probe 3 103 0, Find 2]"

definition after_history :: ht where
  "after_history = snd (the (run grow0 history))"

text \<open>The table \<open>grow2\<close>, resized with the salt 5.\<close>

definition regrown :: ht where
  "regrown = the (resize grow2 5)"

section \<open>Properties\<close>

subsection \<open>Scanning and storing\<close>

lemma scan_bag_None: "scan_bag P g = None \<longleftrightarrow> (\<forall>x \<in> set g. \<not> P x)"
  by (induction g) auto

lemma scan_bag_Some: "scan_bag P g = Some i \<Longrightarrow> i < length g \<and> P (g ! i)"
  by (induction g arbitrary: i) (auto split: if_splits)

lemma scan_chain_None: "scan_chain P gs = None \<longleftrightarrow> (\<forall>x \<in> set (concat gs). \<not> P x)"
proof (induction gs)
  case Nil
  then show ?case by simp
next
  case (Cons g gs)
  show ?case
  proof (cases "scan_bag P g")
    case None
    then have "\<forall>x \<in> set g. \<not> P x" by (simp add: scan_bag_None)
    with None Cons.IH show ?thesis by auto
  next
    case (Some i)
    then have "P (g ! i)" "i < length g" by (auto dest: scan_bag_Some)
    then have "\<exists>x \<in> set g. P x" by (metis nth_mem)
    with Some show ?thesis by auto
  qed
qed

lemma scan_chain_Some:
  "scan_chain P gs = Some (k, i) \<Longrightarrow> k < length gs \<and> i < length (gs ! k) \<and> P (gs ! k ! i)"
proof (induction gs arbitrary: k i)
  case Nil
  then show ?case by simp
next
  case (Cons g gs)
  show ?case
  proof (cases "scan_bag P g")
    case None
    with Cons.prems obtain k' where "scan_chain P gs = Some (k', i)" "k = Suc k'"
      by auto
    with Cons.IH show ?thesis by auto
  next
    case (Some j)
    with Cons.prems have "k = 0" "i = j" by auto
    with Some show ?thesis by (auto dest: scan_bag_Some)
  qed
qed

lemma mset_list_update':
  "i < length g \<Longrightarrow> mset (g[i := p]) + {#g ! i#} = mset g + {#p#}"
  by (induction g arbitrary: i) (auto split: nat.splits)

lemma live_append: "live (xs @ ys) = live xs + live ys"
  by (simp add: live_def)

lemma live_concat_update:
  "k < length gs \<Longrightarrow> live (concat (gs[k := g'])) + live (gs ! k) = live (concat gs) + live g'"
  by (induction gs arbitrary: k) (auto simp: live_append split: nat.splits)

lemma live_mset: "live xs = filter_mset (\<lambda>x. hn_h x \<noteq> 0) (mset xs)"
  by (simp add: live_def)

lemma live_list_update:
  assumes "i < length g"
  shows "live (g[i := p]) + live [g ! i] = live g + live [p]"
proof -
  have "filter_mset (\<lambda>x. hn_h x \<noteq> 0) (mset (g[i := p]) + {#g ! i#})
      = filter_mset (\<lambda>x. hn_h x \<noteq> 0) (mset g + {#p#})"
    using mset_list_update' [OF assms] by simp
  then show ?thesis unfolding live_mset by (simp only: filter_union_mset mset.simps)
qed

lemma live_store:
  assumes "k < length gs" "i < length (gs ! k)"
  shows "live (concat (store gs (k, i) p)) + live [gs ! k ! i] = live (concat gs) + live [p]"
proof -
  have "live (concat (gs[k := (gs ! k)[i := p]])) + live (gs ! k) + live [gs ! k ! i]
      = live (concat gs) + (live ((gs ! k)[i := p]) + live [gs ! k ! i])"
    using live_concat_update [OF assms(1), of "(gs ! k)[i := p]"] by (simp add: add.assoc)
  also have "\<dots> = live (concat gs) + (live (gs ! k) + live [p])"
    using live_list_update [OF assms(2)] by simp
  finally show ?thesis by (simp add: store_def)
qed

lemma live_new_bag: "live (new_bag[0 := p]) = live [p]"
  by (simp add: new_bag_def FASTHT_BAGSZ_def live_def zn_def numeral_eq_Suc)

subsection \<open>Buckets\<close>

lemma hb_insert_Exists:
  assumes "hb_insert b p = (Exists, b')"
  shows "b' = b \<and> (\<exists>x \<in> set (chain_slots b). hn_h x = hn_h p)"
proof (cases "scan_chain (\<lambda>x. hn_h x = hn_h p) (hb_head b)")
  case None
  with assms show ?thesis by (simp add: hb_insert_def split: option.splits)
next
  case (Some pos)
  then have "scan_chain (\<lambda>x. hn_h x = hn_h p) (hb_head b) \<noteq> None" by simp
  then have "\<exists>x \<in> set (concat (hb_head b)). hn_h x = hn_h p"
    unfolding scan_chain_None by blast
  moreover from assms Some have "b' = b" by (simp add: hb_insert_def)
  ultimately show ?thesis by (simp add: chain_slots_def)
qed

lemma live_zero: "hn_h x = 0 \<Longrightarrow> live [x] = {#}"
  by (simp add: live_def)

lemma live_put:
  assumes "scan_chain (\<lambda>x. hn_h x = 0) gs = Some pos"
  shows "live (concat (store gs pos p)) = live (concat gs) + live [p]"
proof -
  obtain k i where pos: "pos = (k, i)" by (cases pos)
  with assms have "k < length gs" "i < length (gs ! k)" "hn_h (gs ! k ! i) = 0"
    by (auto dest: scan_chain_Some)
  then show ?thesis
    using live_store [of k gs i p] by (simp add: pos live_zero)
qed

lemma hb_insert_quick_live:
  "live (chain_slots (hb_insert_quick b p)) = live (chain_slots b) + live [p]"
  by (auto simp: hb_insert_quick_def chain_slots_def live_put live_append live_new_bag
      split: option.splits)

lemma hb_insert_Inserted:
  assumes "hb_insert b p = (Inserted, b')"
  shows "b' = hb_insert_quick b p" and "\<forall>x \<in> set (chain_slots b). hn_h x \<noteq> hn_h p"
proof -
  from assms have none: "scan_chain (\<lambda>x. hn_h x = hn_h p) (hb_head b) = None"
    by (cases "scan_chain (\<lambda>x. hn_h x = hn_h p) (hb_head b)") (simp_all add: hb_insert_def)
  with assms show "b' = hb_insert_quick b p"
    by (auto simp: hb_insert_def hb_insert_quick_def split: option.splits)
  from none show "\<forall>x \<in> set (chain_slots b). hn_h x \<noteq> hn_h p"
    unfolding scan_chain_None chain_slots_def by blast
qed

lemma hb_insert_quick_n: "hb_n (hb_insert_quick b p) = hb_n b + 1"
  by (simp add: hb_insert_quick_def split: option.splits)

text \<open>Replacing one bucket of the array.\<close>

lemma live_buckets_update:
  "i < length bs \<Longrightarrow>
   live (concat (map chain_slots (bs[i := b']))) + live (chain_slots (bs ! i))
     = live (concat (map chain_slots bs)) + live (chain_slots b')"
  by (induction bs arbitrary: i) (auto simp: live_append split: nat.splits)

lemma live_buckets_add:
  assumes "i < length bs" "live (chain_slots b') = live (chain_slots (bs ! i)) + M"
  shows "live (concat (map chain_slots (bs[i := b']))) = live (concat (map chain_slots bs)) + M"
  using live_buckets_update [OF assms(1), of b'] assms(2) by simp

lemma placed_update:
  assumes "placed n salt bs" "i < length bs"
    and "\<forall>x \<in># live (chain_slots b'). x \<in># live (chain_slots (bs ! i)) \<or> unat (ht_hash (hn_h x) n salt) = i"
  shows "placed n salt (bs[i := b'])"
  using assms unfolding placed_def by (auto simp: nth_list_update)

lemma live_member: "x \<in># live xs \<longleftrightarrow> x \<in> set xs \<and> hn_h x \<noteq> 0"
  by (simp add: live_def)

lemma live_buckets_member:
  "x \<in># live (concat (map chain_slots bs)) \<longleftrightarrow> (\<exists>i<length bs. x \<in># live (chain_slots (bs ! i)))"
proof -
  have "x \<in> set (concat (map chain_slots bs)) \<longleftrightarrow> (\<exists>i<length bs. x \<in> set (chain_slots (bs ! i)))"
    by (auto simp: in_set_conv_nth [of _ bs] intro: nth_mem)
  then show ?thesis by (auto simp: live_member)
qed

text \<open>The index stays inside the bucket array.\<close>

lemma ht_hash_less: "n \<noteq> 0 \<Longrightarrow> unat (ht_hash hv n salt) < unat n"
proof -
  assume n: "n \<noteq> 0"
  have "ht_hash hv n salt \<le> n - 1"
    by (simp add: ht_hash_def Let_def word_and_le1)
  moreover have "n - 1 < n" using n by (simp add: word_less_nat_alt unat_minus_one unat_gt_0)
  ultimately show ?thesis by (simp add: word_less_nat_alt word_le_nat_alt)
qed

subsection \<open>Lookups\<close>

lemma uniq_eq:
  assumes "uniq M" "x \<in># M" "y \<in># M" "hn_h x = hn_h y"
  shows "x = y"
proof (rule ccontr)
  assume ne: "x \<noteq> y"
  from assms(2) obtain M1 where M1: "M = add_mset x M1" by (meson multi_member_split)
  with assms(3) ne have "y \<in># M1" by auto
  then obtain M2 where M2: "M1 = add_mset y M2" by (meson multi_member_split)
  have "size (filter_mset (\<lambda>z. hn_h z = hn_h y) M) \<ge> 2"
    by (simp add: M1 M2 assms(4))
  with assms(1) show False unfolding uniq_def
    by (metis One_nat_def Suc_1 not_less_eq_eq)
qed

lemma uniq_mono: "uniq M \<Longrightarrow> N \<subseteq># M \<Longrightarrow> uniq N"
  unfolding uniq_def
  by (meson le_trans multiset_filter_mono size_mset_mono)

lemma uniq_add:
  assumes "uniq M" "\<forall>x \<in># M. hn_h x \<noteq> hn_h p"
  shows "uniq (add_mset p M)"
  unfolding uniq_def
proof
  fix hv
  show "size (filter_mset (\<lambda>x. hn_h x = hv) (add_mset p M)) \<le> 1"
  proof (cases "hn_h p = hv")
    case True
    with assms(2) have "filter_mset (\<lambda>x. hn_h x = hv) M = {#}"
      by simp
    with True show ?thesis by simp
  next
    case False
    with assms(1) show ?thesis by (simp add: uniq_def)
  qed
qed

lemma unat_2p64: "k < 64 \<Longrightarrow> unat ((2::u64) ^ k) = 2 ^ k"
proof -
  assume k: "k < 64"
  then have lt: "(2::nat) ^ k < 2 ^ 64" by (intro power_strict_increasing) simp_all
  have "unat ((2::u64) ^ k) = unat (word_of_nat (2 ^ k) :: u64)" by simp
  also have "\<dots> = 2 ^ k mod 2 ^ 64" by (simp add: unat_of_nat del: of_nat_power of_nat_numeral)
  also from lt have "\<dots> = 2 ^ k" by (rule mod_less)
  finally show ?thesis .
qed

lemma shaped_n: "shaped t \<Longrightarrow> ht_n t \<noteq> 0 \<and> unat (ht_n t) = length (ht_b t)"
proof -
  assume "shaped t"
  then obtain k where k: "k < 64" "ht_n t = 2 ^ k" "length (ht_b t) = 2 ^ k"
    unfolding shaped_def by blast
  from k(1) have "unat ((2::u64) ^ k) = 2 ^ k" by (rule unat_2p64)
  moreover from k(1) have "(2::u64) ^ k \<noteq> 0" by (simp add: power_eq_0_iff)
  ultimately show ?thesis using k by simp
qed

lemma bucket_of_less: "shaped t \<Longrightarrow> bucket_of t hv < length (ht_b t)"
  using ht_hash_less [of "ht_n t" hv "ht_rand t"] shaped_n [of t]
  by (simp add: bucket_of_def)

lemma hn_eq: "hn_h x = a \<Longrightarrow> hn_v x = c \<Longrightarrow> (x::hn) = \<lparr>hn_h = a, hn_v = c\<rparr>"
  by (cases x) simp

text \<open>What \<open>ht_findx\<close> returns, in terms of the scan of the selected bucket.\<close>

lemma ht_findx_NotFound:
  assumes "ht_findx t hv z = Some (NotFound, t')"
  shows "t' = t" and "bucket_of t hv < length (ht_b t)"
    and "\<forall>x \<in> set (chain_slots (ht_b t ! bucket_of t hv)). hn_h x \<noteq> hv"
proof -
  let ?i = "bucket_of t hv"
  from assms show lt: "?i < length (ht_b t)"
    by (auto simp: ht_findx_def bucket_of_def Let_def split: if_splits)
  with assms have sc: "scan_chain (\<lambda>x. hn_h x = hv) (hb_head (ht_b t ! ?i)) = None"
    by (auto simp: ht_findx_def bucket_of_def Let_def split: if_splits option.splits)
  with assms lt show "t' = t"
    by (simp add: ht_findx_def bucket_of_def Let_def)
  from sc show "\<forall>x \<in> set (chain_slots (ht_b t ! ?i)). hn_h x \<noteq> hv"
    unfolding scan_chain_None chain_slots_def by blast
qed

lemma ht_findx_Found:
  assumes "ht_findx t hv z = Some (Found v, t')"
  obtains k j where "bucket_of t hv < length (ht_b t)"
    and "scan_chain (\<lambda>x. hn_h x = hv) (hb_head (ht_b t ! bucket_of t hv)) = Some (k, j)"
    and "k < length (hb_head (ht_b t ! bucket_of t hv))"
    and "j < length (hb_head (ht_b t ! bucket_of t hv) ! k)"
    and "hb_head (ht_b t ! bucket_of t hv) ! k ! j = \<lparr>hn_h = hv, hn_v = v\<rparr>"
    and "t' = (if z then t\<lparr>ht_b := (ht_b t)[bucket_of t hv := (ht_b t ! bucket_of t hv)
                 \<lparr>hb_head := (hb_head (ht_b t ! bucket_of t hv))
                    [k := (hb_head (ht_b t ! bucket_of t hv) ! k)[j := zn]]\<rparr>]\<rparr> else t)"
proof -
  let ?i = "bucket_of t hv"
  let ?gs = "hb_head (ht_b t ! ?i)"
  from assms have lt: "?i < length (ht_b t)"
    by (auto simp: ht_findx_def bucket_of_def Let_def split: if_splits)
  with assms obtain k j where sc: "scan_chain (\<lambda>x. hn_h x = hv) ?gs = Some (k, j)"
    by (cases "scan_chain (\<lambda>x. hn_h x = hv) ?gs")
       (auto simp: ht_findx_def bucket_of_def Let_def)
  then have kj: "k < length ?gs" "j < length (?gs ! k)" "hn_h (?gs ! k ! j) = hv"
    by (auto dest: scan_chain_Some)
  from assms lt sc have v: "hn_v (?gs ! k ! j) = v"
    and t': "t' = (if z then t\<lparr>ht_b := (ht_b t)[?i := (ht_b t ! ?i)
                 \<lparr>hb_head := ?gs[k := (?gs ! k)[j := zn]]\<rparr>]\<rparr> else t)"
    by (auto simp: ht_findx_def bucket_of_def Let_def slot_def store_def)
  from kj(3) v have "?gs ! k ! j = \<lparr>hn_h = hv, hn_v = v\<rparr>" by (rule hn_eq)
  with lt sc kj t' show ?thesis using that by blast
qed

lemma ht_findx_scan_None:
  assumes "bucket_of t hv < length (ht_b t)"
    and "\<forall>x \<in> set (chain_slots (ht_b t ! bucket_of t hv)). hn_h x \<noteq> hv"
  shows "ht_findx t hv z = Some (NotFound, t)"
proof -
  from assms(2) have "scan_chain (\<lambda>x. hn_h x = hv) (hb_head (ht_b t ! bucket_of t hv)) = None"
    unfolding scan_chain_None chain_slots_def by blast
  with assms(1) show ?thesis
    by (simp add: ht_findx_def bucket_of_def Let_def)
qed

lemma nth_nth_concat: "k < length gs \<Longrightarrow> j < length (gs ! k) \<Longrightarrow> gs ! k ! j \<in> set (concat gs)"
  by (metis concat.simps nth_mem set_concat UN_I)

lemma slot_in_all:
  "i < length (ht_b t) \<Longrightarrow> x \<in> set (chain_slots (ht_b t ! i)) \<Longrightarrow> x \<in> set (all_slots t)"
  by (auto simp: all_slots_def intro: nth_mem)

lemma present_live: "present t hv v \<longleftrightarrow> \<lparr>hn_h = hv, hn_v = v\<rparr> \<in># live (all_slots t)"
  by (auto simp: present_def live_member)

lemma absent_live: "absent t hv \<longleftrightarrow> (\<forall>x \<in># live (all_slots t). hn_h x \<noteq> hv)"
  by (auto simp: absent_def live_member)

lemma live_in_bucket:
  assumes "ht_inv t" "x \<in># live (all_slots t)"
  shows "x \<in># live (chain_slots (ht_b t ! bucket_of t (hn_h x)))"
proof -
  from assms(2) obtain i where i: "i < length (ht_b t)" "x \<in># live (chain_slots (ht_b t ! i))"
    unfolding all_slots_def live_buckets_member by blast
  with assms(1) have "bucket_of t (hn_h x) = i"
    by (simp add: ht_inv_def placed_def bucket_of_def)
  with i show ?thesis by simp
qed

subsection \<open>Lookups and removals under the invariant\<close>

lemma ms_cancel:
  fixes A :: "'a multiset"
  assumes "A' + Bi = A + B'" "B' + P = Bi"
  shows "A' + P = A"
proof -
  from assms have "A' + (B' + P) = A + B'" by simp
  then have "(A' + P) + B' = A + B'" by (simp only: ac_simps)
  then show ?thesis by (simp only: add_right_cancel)
qed

lemma ht_findx_present:
  assumes inv: "ht_inv t" and pr: "present t hv v"
  shows "\<exists>t'. ht_findx t hv z = Some (Found v, t')"
proof -
  let ?i = "bucket_of t hv"
  let ?p = "\<lparr>hn_h = hv, hn_v = v\<rparr>"
  from inv have sh: "shaped t" and un: "uniq (live (all_slots t))" by (simp_all add: ht_inv_def)
  from sh have lt: "?i < length (ht_b t)" by (rule bucket_of_less)
  from pr have pl: "?p \<in># live (all_slots t)" by (simp add: present_live)
  with inv have inb: "?p \<in># live (chain_slots (ht_b t ! ?i))"
    using live_in_bucket [of t ?p] by simp
  then have "?p \<in> set (concat (hb_head (ht_b t ! ?i)))"
    by (simp add: live_member chain_slots_def del: set_concat)
  moreover have "hn_h ?p = hv" by simp
  ultimately have "\<exists>x \<in> set (concat (hb_head (ht_b t ! ?i))). hn_h x = hv" by (rule bexI [rotated])
  then have "scan_chain (\<lambda>x. hn_h x = hv) (hb_head (ht_b t ! ?i)) \<noteq> None"
    unfolding scan_chain_None by blast
  then obtain k j where sc: "scan_chain (\<lambda>x. hn_h x = hv) (hb_head (ht_b t ! ?i)) = Some (k, j)"
    by (cases "scan_chain (\<lambda>x. hn_h x = hv) (hb_head (ht_b t ! ?i))") auto
  let ?x = "hb_head (ht_b t ! ?i) ! k ! j"
  from sc have kj: "k < length (hb_head (ht_b t ! ?i))" "j < length (hb_head (ht_b t ! ?i) ! k)"
    "hn_h ?x = hv"
    by (auto dest: scan_chain_Some)
  from pr have nz: "hv \<noteq> 0" by (simp add: present_def)
  from kj have "?x \<in> set (chain_slots (ht_b t ! ?i))"
    unfolding chain_slots_def by (intro nth_nth_concat)
  with lt have "?x \<in> set (all_slots t)" by (rule slot_in_all)
  with kj(3) nz have "?x \<in># live (all_slots t)" by (simp add: live_member)
  with un pl kj(3) have "?x = ?p" by (intro uniq_eq [of "live (all_slots t)"]) simp_all
  then have "hn_v (slot (hb_head (ht_b t ! ?i)) (k, j)) = v" by (simp add: slot_def)
  with lt sc show ?thesis
    by (simp add: ht_findx_def Let_def bucket_of_def [symmetric])
qed

lemma ht_findx_absent:
  assumes "shaped t" "absent t hv" "hv \<noteq> 0"
  shows "ht_findx t hv z = Some (NotFound, t)"
proof (rule ht_findx_scan_None)
  from assms(1) show lt: "bucket_of t hv < length (ht_b t)" by (rule bucket_of_less)
  show "\<forall>x \<in> set (chain_slots (ht_b t ! bucket_of t hv)). hn_h x \<noteq> hv"
  proof
    fix x assume "x \<in> set (chain_slots (ht_b t ! bucket_of t hv))"
    with lt have "x \<in> set (all_slots t)" by (rule slot_in_all)
    with assms(2,3) show "hn_h x \<noteq> hv" unfolding absent_def by metis
  qed
qed

lemma ht_findx_Found_present:
  assumes "ht_findx t hv z = Some (Found v, t')" "hv \<noteq> 0"
  shows "present t hv v"
proof -
  from assms(1) obtain k j where lt: "bucket_of t hv < length (ht_b t)"
    and kj: "k < length (hb_head (ht_b t ! bucket_of t hv))"
      "j < length (hb_head (ht_b t ! bucket_of t hv) ! k)"
    and eq: "hb_head (ht_b t ! bucket_of t hv) ! k ! j = \<lparr>hn_h = hv, hn_v = v\<rparr>"
    by (rule ht_findx_Found)
  from kj have "hb_head (ht_b t ! bucket_of t hv) ! k ! j \<in> set (chain_slots (ht_b t ! bucket_of t hv))"
    unfolding chain_slots_def by (intro nth_nth_concat)
  with lt have "hb_head (ht_b t ! bucket_of t hv) ! k ! j \<in> set (all_slots t)" by (rule slot_in_all)
  with eq assms(2) show ?thesis by (simp add: present_def)
qed

lemma ht_findx_NotFound_absent:
  assumes "ht_inv t" "ht_findx t hv z = Some (NotFound, t')"
  shows "absent t hv"
  unfolding absent_live
proof
  fix x assume x: "x \<in># live (all_slots t)"
  show "hn_h x \<noteq> hv"
  proof
    assume hx: "hn_h x = hv"
    from assms(1) x have "x \<in># live (chain_slots (ht_b t ! bucket_of t (hn_h x)))"
      by (rule live_in_bucket)
    with hx have "x \<in> set (chain_slots (ht_b t ! bucket_of t hv))" by (simp add: live_member)
    with ht_findx_NotFound(3) [OF assms(2)] hx show False by blast
  qed
qed

text \<open>The effect of a removal on the live nodes, and on the invariant.\<close>

lemma ht_remove_live:
  assumes "ht_findx t hv True = Some (Found v, t')"
  shows "live (all_slots t') + live [\<lparr>hn_h = hv, hn_v = v\<rparr>] = live (all_slots t)"
    and "ht_n t' = ht_n t" and "ht_rand t' = ht_rand t" and "length (ht_b t') = length (ht_b t)"
    and "\<forall>i<length (ht_b t). live (chain_slots (ht_b t' ! i)) \<subseteq># live (chain_slots (ht_b t ! i))"
proof -
  let ?i = "bucket_of t hv"
  let ?gs = "hb_head (ht_b t ! ?i)"
  from assms obtain k j where lt: "?i < length (ht_b t)"
    and kj: "k < length ?gs" "j < length (?gs ! k)"
    and eq: "?gs ! k ! j = \<lparr>hn_h = hv, hn_v = v\<rparr>"
    and t': "t' = t\<lparr>ht_b := (ht_b t)[?i := (ht_b t ! ?i)\<lparr>hb_head := ?gs[k := (?gs ! k)[j := zn]]\<rparr>]\<rparr>"
    by (rule ht_findx_Found) simp
  let ?b' = "(ht_b t ! ?i)\<lparr>hb_head := ?gs[k := (?gs ! k)[j := zn]]\<rparr>"
  have "live (concat (store ?gs (k, j) zn)) + live [?gs ! k ! j] = live (concat ?gs) + live [zn]"
    using kj by (rule live_store)
  then have b: "live (chain_slots ?b') + live [\<lparr>hn_h = hv, hn_v = v\<rparr>] = live (chain_slots (ht_b t ! ?i))"
    by (simp add: chain_slots_def store_def eq live_zero zn_def)
  have "live (concat (map chain_slots ((ht_b t)[?i := ?b']))) + live (chain_slots (ht_b t ! ?i))
      = live (concat (map chain_slots (ht_b t))) + live (chain_slots ?b')"
    using lt by (rule live_buckets_update)
  from this b have "live (concat (map chain_slots ((ht_b t)[?i := ?b']))) + live [\<lparr>hn_h = hv, hn_v = v\<rparr>]
        = live (concat (map chain_slots (ht_b t)))"
    by (rule ms_cancel)
  then show "live (all_slots t') + live [\<lparr>hn_h = hv, hn_v = v\<rparr>] = live (all_slots t)"
    unfolding all_slots_def t' by simp
  show "ht_n t' = ht_n t" "ht_rand t' = ht_rand t" "length (ht_b t') = length (ht_b t)"
    by (simp_all add: t')
  from b have "live (chain_slots ?b') \<subseteq># live (chain_slots (ht_b t ! ?i))"
    by (metis mset_subset_eq_add_left)
  then have "live (chain_slots ((ht_b t)[?i := ?b'] ! i)) \<subseteq># live (chain_slots (ht_b t ! i))"
    if "i < length (ht_b t)" for i
    using that by (cases "i = ?i") (simp_all only: nth_list_update_eq nth_list_update_neq subset_mset.order_refl)
  then show "\<forall>i<length (ht_b t). live (chain_slots (ht_b t' ! i)) \<subseteq># live (chain_slots (ht_b t ! i))"
    by (simp add: t')
qed

lemma ht_findx_inv:
  assumes "ht_inv t" "ht_findx t hv z = Some (l, t')"
  shows "ht_inv t'"
proof (cases "z \<and> l \<noteq> NotFound")
  case False
  have "t' = t"
  proof (cases l)
    case NotFound
    with assms(2) show ?thesis by (auto dest: ht_findx_NotFound(1))
  next
    case (Found v)
    with False have "\<not> z" by simp
    with assms(2) Found show ?thesis by (auto elim: ht_findx_Found)
  qed
  with assms(1) show ?thesis by simp
next
  case True
  then obtain v where l: "l = Found v" and z: z by (cases l) auto
  note eff = ht_remove_live [OF assms(2) [unfolded l, simplified z]]
  from assms(1) eff(2,4) have "shaped t'" by (simp add: ht_inv_def shaped_def)
  moreover have "placed (ht_n t') (ht_rand t') (ht_b t')"
    unfolding placed_def
  proof (intro allI impI ballI)
    fix i x assume i: "i < length (ht_b t')" and x: "x \<in># live (chain_slots (ht_b t' ! i))"
    from i eff(4) have i': "i < length (ht_b t)" by simp
    with eff(5) x have "x \<in># live (chain_slots (ht_b t ! i))" by (meson mset_subset_eqD)
    with assms(1) i' have "unat (ht_hash (hn_h x) (ht_n t) (ht_rand t)) = i"
      by (simp add: ht_inv_def placed_def)
    then show "unat (ht_hash (hn_h x) (ht_n t') (ht_rand t')) = i" by (simp add: eff(2,3))
  qed
  moreover have "uniq (live (all_slots t'))"
  proof (rule uniq_mono)
    from assms(1) show "uniq (live (all_slots t))" by (simp add: ht_inv_def)
    from eff(1) show "live (all_slots t') \<subseteq># live (all_slots t)"
      by (metis mset_subset_eq_add_left)
  qed
  ultimately show ?thesis by (simp add: ht_inv_def)
qed

lemma ht_remove_absent:
  assumes "ht_inv t" "ht_findx t hv True = Some (Found v, t')" "hv \<noteq> 0"
  shows "absent t' hv"
  unfolding absent_live
proof
  fix x assume x: "x \<in># live (all_slots t')"
  let ?p = "\<lparr>hn_h = hv, hn_v = v\<rparr>"
  from assms(3) have lp: "live [?p] = {#?p#}" by (simp add: live_def)
  from ht_remove_live(1) [OF assms(2)] have M: "live (all_slots t) = add_mset ?p (live (all_slots t'))"
    by (simp add: lp)
  show "hn_h x \<noteq> hv"
  proof
    assume "hn_h x = hv"
    then have "size (filter_mset (\<lambda>y. hn_h y = hv) (live (all_slots t))) \<ge> 2"
      using x unfolding M by (auto dest!: multi_member_split)
    moreover from assms(1) have "size (filter_mset (\<lambda>y. hn_h y = hv) (live (all_slots t))) \<le> 1"
      by (simp add: ht_inv_def uniq_def)
    ultimately show False by simp
  qed
qed

subsection \<open>The resize loops\<close>

lemma fold_opt_rule:
  assumes "\<And>x s s' M. Q s M \<Longrightarrow> f x s = Some s' \<Longrightarrow> Q s' (M + g x)"
    and "Q s M" "fold_opt f xs s = Some s'"
  shows "Q s' (M + sum_list (map g xs))"
  using assms(2,3)
proof (induction xs arbitrary: s M)
  case Nil
  then show ?case by simp
next
  case (Cons x xs)
  from Cons.prems(2) obtain s1 where s1: "f x s = Some s1" "fold_opt f xs s1 = Some s'"
    by (auto split: option.splits)
  from Cons.prems(1) s1(1) have "Q s1 (M + g x)" by (rule assms(1))
  from Cons.IH [OF this s1(2)] show ?case by (simp add: add.assoc)
qed

lemma fold_opt_total:
  assumes "\<And>x s. I s \<Longrightarrow> \<exists>s'. f x s = Some s' \<and> I s'" and "I s"
  shows "\<exists>s'. fold_opt f xs s = Some s' \<and> I s'"
  using assms(2)
proof (induction xs arbitrary: s)
  case Nil
  then show ?case by simp
next
  case (Cons x xs)
  from assms(1) [OF Cons.prems] obtain s1 where "f x s = Some s1" "I s1" by blast
  with Cons.IH [of s1] show ?case by simp
qed

lemma live_concat: "live (concat xss) = sum_list (map live xss)"
  by (induction xss) (simp_all add: live_append live_def)

lemma live_singletons: "sum_list (map (\<lambda>p. live [p]) g) = live g"
  by (induction g) (simp_all add: live_def)

lemma move_node_ok:
  assumes "rs_ok n salt L s M" "move_node n salt p s = Some s'"
  shows "rs_ok n salt L s' (M + live [p])"
proof (cases "hn_h p = 0")
  case True
  with assms show ?thesis by (simp add: move_node_def live_zero)
next
  case False
  let ?j = "unat (ht_hash (hn_h p) n salt)"
  let ?x = "hb_insert_quick (rs_b s ! ?j) p"
  from assms(2) False have j: "?j < length (rs_b s)"
    by (auto simp: move_node_def Let_def split: if_splits)
  with assms(2) False have b': "rs_b s' = (rs_b s)[?j := ?x]"
    by (auto simp: move_node_def Let_def)
  have lx: "live (chain_slots ?x) = live (chain_slots (rs_b s ! ?j)) + live [p]"
    by (rule hb_insert_quick_live)
  from assms(1) have ok: "length (rs_b s) = L" "placed n salt (rs_b s)"
    "live (concat (map chain_slots (rs_b s))) = M"
    by (simp_all add: rs_ok_def)
  have "placed n salt ((rs_b s)[?j := ?x])"
  proof (rule placed_update [OF ok(2) j], rule ballI)
    fix y assume "y \<in># live (chain_slots ?x)"
    with lx have "y \<in># live (chain_slots (rs_b s ! ?j)) \<or> y \<in># live [p]" by simp
    then show "y \<in># live (chain_slots (rs_b s ! ?j)) \<or> unat (ht_hash (hn_h y) n salt) = ?j"
      by (auto simp: live_member)
  qed
  moreover have "live (concat (map chain_slots ((rs_b s)[?j := ?x]))) = M + live [p]"
    using live_buckets_add [OF j lx] ok(3) by simp
  ultimately show ?thesis using ok(1) by (simp add: rs_ok_def b')
qed

lemma move_bag_ok:
  assumes "rs_ok n salt L s M" "fold_opt (move_node n salt) g s = Some s'"
  shows "rs_ok n salt L s' (M + live g)"
  using fold_opt_rule [of "rs_ok n salt L" "move_node n salt" "\<lambda>p. live [p]", OF move_node_ok assms]
  by (simp add: live_singletons)

lemma move_chain_ok:
  assumes "rs_ok n salt L s M" "fold_opt (\<lambda>g. fold_opt (move_node n salt) g) gs s = Some s'"
  shows "rs_ok n salt L s' (M + live (concat gs))"
  using fold_opt_rule [of "rs_ok n salt L" "\<lambda>g. fold_opt (move_node n salt) g" live,
      OF move_bag_ok assms]
  by (simp add: live_concat)

lemma move_buckets_ok:
  assumes "rs_ok n salt L s M"
    "fold_opt (\<lambda>ob. fold_opt (\<lambda>g. fold_opt (move_node n salt) g) (hb_head ob)) bs s = Some s'"
  shows "rs_ok n salt L s' (M + live (concat (map chain_slots bs)))"
proof -
  have step: "rs_ok n salt L s' (M + live (chain_slots ob))"
    if "rs_ok n salt L s M"
      "fold_opt (\<lambda>g. fold_opt (move_node n salt) g) (hb_head ob) s = Some s'" for ob s s' M
    using that unfolding chain_slots_def by (rule move_chain_ok)
  have "rs_ok n salt L s' (M + sum_list (map (\<lambda>ob. live (chain_slots ob)) bs))"
    using step assms
    by (rule fold_opt_rule [of "rs_ok n salt L"
          "\<lambda>ob. fold_opt (\<lambda>g. fold_opt (move_node n salt) g) (hb_head ob)"])
  moreover have "sum_list (map (\<lambda>ob. live (chain_slots ob)) bs) = live (concat (map chain_slots bs))"
    by (simp add: live_concat comp_def)
  ultimately show ?thesis by simp
qed

lemma rs_ok_start:
  "rs_ok n salt L \<lparr>rs_b = replicate L new_hb, rs_maxbags = 0, rs_maxn = 0, rs_fill = 0\<rparr> {#}"
  by (simp add: rs_ok_def placed_def chain_slots_def new_hb_def live_def)

lemma resize_Some:
  assumes "resize t salt = Some t'"
  shows "length (ht_b t') = unat (ht_n t * 2)" and "placed (ht_n t') (ht_rand t') (ht_b t')"
    and "live (all_slots t') = live (all_slots t)"
    and "ht_n t' = ht_n t * 2" and "ht_rand t' = salt"
    and "ht_nodes t' = ht_nodes t" and "ht_splits t' = ht_splits t"
proof -
  let ?n = "ht_n t * 2"
  let ?s0 = "\<lparr>rs_b = replicate (unat ?n) new_hb, rs_maxbags = 0, rs_maxn = 0, rs_fill = 0\<rparr>"
  from assms obtain s where
    s: "fold_opt (\<lambda>ob. fold_opt (\<lambda>g. fold_opt (move_node ?n salt) g) (hb_head ob)) (ht_b t) ?s0 = Some s"
    and t': "t' = t\<lparr>ht_rand := salt, ht_n := ?n, ht_b := rs_b s, ht_bagmax := rs_maxbags s,
                    ht_maxn := rs_maxn s, ht_fill := rs_fill s\<rparr>"
    by (auto simp: resize_def Let_def split: option.splits)
  from move_buckets_ok [OF rs_ok_start s]
  have "rs_ok ?n salt (unat ?n) s (live (all_slots t))" by (simp add: all_slots_def)
  then show "length (ht_b t') = unat (ht_n t * 2)" "placed (ht_n t') (ht_rand t') (ht_b t')"
    "live (all_slots t') = live (all_slots t)"
    by (simp_all add: rs_ok_def t' all_slots_def)
  show "ht_n t' = ht_n t * 2" "ht_rand t' = salt" "ht_nodes t' = ht_nodes t" "ht_splits t' = ht_splits t"
    by (simp_all add: t')
qed

lemma move_node_total:
  assumes "n \<noteq> 0 \<and> length (rs_b s) = unat n"
  shows "\<exists>s'. move_node n salt p s = Some s' \<and> (n \<noteq> 0 \<and> length (rs_b s') = unat n)"
  using assms ht_hash_less [of n "hn_h p" salt]
  by (simp add: move_node_def Let_def)

lemma resize_total:
  assumes "ht_n t * 2 \<noteq> 0"
  shows "\<exists>t'. resize t salt = Some t'"
proof -
  let ?n = "ht_n t * 2"
  let ?I = "\<lambda>s. ?n \<noteq> 0 \<and> length (rs_b s) = unat ?n"
  let ?s0 = "\<lparr>rs_b = replicate (unat ?n) new_hb, rs_maxbags = 0, rs_maxn = 0, rs_fill = 0\<rparr>"
  have bag: "\<exists>s'. fold_opt (move_node ?n salt) g s = Some s' \<and> ?I s'" if "?I s" for g s
    using move_node_total that by (rule fold_opt_total)
  have chain: "\<exists>s'. fold_opt (\<lambda>g. fold_opt (move_node ?n salt) g) gs s = Some s' \<and> ?I s'"
    if "?I s" for gs s
    using bag that by (rule fold_opt_total [where I = ?I])
  have I0: "?I ?s0" using assms by simp
  have "\<exists>s'. fold_opt (\<lambda>ob. fold_opt (\<lambda>g. fold_opt (move_node ?n salt) g) (hb_head ob))
          (ht_b t) ?s0 = Some s' \<and> ?I s'"
    using chain I0 by (rule fold_opt_total [where I = ?I])
  then show ?thesis by (auto simp: resize_def Let_def)
qed

lemma shaped_double:
  assumes "shaped t" "ht_n t * 2 \<noteq> 0" "ht_n t' = ht_n t * 2" "length (ht_b t') = unat (ht_n t * 2)"
  shows "shaped t'" and "length (ht_b t') = 2 * length (ht_b t)"
proof -
  from assms(1) obtain k where k: "k < 64" "ht_n t = 2 ^ k" "length (ht_b t) = 2 ^ k"
    unfolding shaped_def by blast
  have n': "ht_n t * 2 = 2 ^ Suc k" by (simp add: k(2))
  with assms(2) have "Suc k < 64"
    by (simp del: power_Suc)
  then have len: "length (ht_b t') = 2 ^ Suc k"
    using assms(4) unfolding n' by (simp only: unat_2p64)
  with \<open>Suc k < 64\<close> assms(3) show "shaped t'"
    unfolding shaped_def n' by blast
  from len k(3) show "length (ht_b t') = 2 * length (ht_b t)" by simp
qed

subsection \<open>The branches of a probe\<close>

lemma upd_stats_same [simp]:
  "ht_b (upd_stats t b) = ht_b t" "ht_n (upd_stats t b) = ht_n t"
  "ht_rand (upd_stats t b) = ht_rand t" "ht_nodes (upd_stats t b) = ht_nodes t"
  "ht_fill (upd_stats t b) = ht_fill t" "ht_splits (upd_stats t b) = ht_splits t"
  by (simp_all add: upd_stats_def Let_def)

lemma ht_inv_cong:
  assumes "ht_b t' = ht_b t" "ht_n t' = ht_n t" "ht_rand t' = ht_rand t"
  shows "ht_inv t' = ht_inv t" and "all_slots t' = all_slots t"
  by (simp_all add: ht_inv_def shaped_def all_slots_def assms)

lemma ht_probe_Exists:
  assumes "ht_probe t hv v salt = Some (Exists, t')"
  shows "t' = t" and "bucket_of t hv < length (ht_b t)"
    and "\<exists>x \<in> set (chain_slots (ht_b t ! bucket_of t hv)). hn_h x = hv"
proof -
  let ?i = "bucket_of t hv"
  let ?p = "\<lparr>hn_h = hv, hn_v = v\<rparr>"
  from assms show lt: "?i < length (ht_b t)"
    by (auto simp: ht_probe_def bucket_of_def Let_def split: if_splits)
  obtain r b' where ins: "hb_insert (ht_b t ! ?i) ?p = (r, b')" by (cases "hb_insert (ht_b t ! ?i) ?p")
  with assms lt have r: "r = Exists"
    by (cases r) (auto simp: ht_probe_def bucket_of_def Let_def split: if_splits option.splits)
  with assms lt ins show "t' = t" by (simp add: ht_probe_def bucket_of_def Let_def)
  from ins r hb_insert_Exists [of "ht_b t ! ?i" ?p b']
  show "\<exists>x \<in> set (chain_slots (ht_b t ! ?i)). hn_h x = hv" by simp
qed

text \<open>The two ways in which \<open>ht_probe\<close> inserts: without and with a resize.\<close>

lemma ht_probe_Inserted:
  assumes "ht_probe t hv v salt = Some (Inserted, t')"
  defines "i \<equiv> bucket_of t hv"
  defines "b' \<equiv> hb_insert_quick (ht_b t ! i) \<lparr>hn_h = hv, hn_v = v\<rparr>"
  defines "t1 \<equiv> t\<lparr>ht_b := (ht_b t)[i := b'], ht_nodes := ht_nodes t + 1\<rparr>"
  shows "i < length (ht_b t)"
    and "\<forall>x \<in> set (chain_slots (ht_b t ! i)). hn_h x \<noteq> hv"
    and "hb_insert (ht_b t ! i) \<lparr>hn_h = hv, hn_v = v\<rparr> = (Inserted, b')"
    and "hb_n (ht_b t ! i) = 0 \<and> FILLPCT < ((ht_fill t + 1) * 100) div unat (1 + ht_n t) \<Longrightarrow>
         \<exists>t3. resize (t1\<lparr>ht_fill := ht_fill t + 1, ht_splits := ht_splits t + 1\<rparr>) salt = Some t3
              \<and> bucket_of t3 hv < length (ht_b t3)
              \<and> t' = upd_stats t3 (ht_b t3 ! bucket_of t3 hv)"
    and "\<not> (hb_n (ht_b t ! i) = 0 \<and> FILLPCT < ((ht_fill t + 1) * 100) div unat (1 + ht_n t)) \<Longrightarrow>
         t' = upd_stats (t1\<lparr>ht_fill := (if hb_n (ht_b t ! i) = 0 then ht_fill t + 1 else ht_fill t)\<rparr>) b'"
proof -
  let ?p = "\<lparr>hn_h = hv, hn_v = v\<rparr>"
  from assms(1) show lt: "i < length (ht_b t)"
    by (auto simp: ht_probe_def bucket_of_def i_def Let_def split: if_splits)
  obtain r b2 where ins: "hb_insert (ht_b t ! i) ?p = (r, b2)" by (cases "hb_insert (ht_b t ! i) ?p")
  with assms(1) lt have r: "r = Inserted"
    by (cases r) (auto simp: ht_probe_def bucket_of_def i_def Let_def split: if_splits option.splits)
  from ins r have b2: "b2 = b'" unfolding b'_def by (simp add: hb_insert_Inserted(1))
  from ins r b2 show ins': "hb_insert (ht_b t ! i) ?p = (Inserted, b')" by simp
  then show "\<forall>x \<in> set (chain_slots (ht_b t ! i)). hn_h x \<noteq> hv"
    using hb_insert_Inserted(2) [of "ht_b t ! i" ?p b'] by simp
  have n': "hb_n b' = hb_n (ht_b t ! i) + 1" by (simp add: b'_def hb_insert_quick_n)
  note unf = ht_probe_def bucket_of_def [symmetric] i_def [symmetric] Let_def
  {
    assume c: "hb_n (ht_b t ! i) = 0 \<and> FILLPCT < ((ht_fill t + 1) * 100) div unat (1 + ht_n t)"
    with assms(1) lt ins' n'
    show "\<exists>t3. resize (t1\<lparr>ht_fill := ht_fill t + 1, ht_splits := ht_splits t + 1\<rparr>) salt = Some t3
              \<and> bucket_of t3 hv < length (ht_b t3)
              \<and> t' = upd_stats t3 (ht_b t3 ! bucket_of t3 hv)"
      by (auto simp: unf t1_def split: option.splits if_splits)
  }
  {
    assume c: "\<not> (hb_n (ht_b t ! i) = 0 \<and> FILLPCT < ((ht_fill t + 1) * 100) div unat (1 + ht_n t))"
    with assms(1) lt ins' n'
    show "t' = upd_stats (t1\<lparr>ht_fill := (if hb_n (ht_b t ! i) = 0 then ht_fill t + 1 else ht_fill t)\<rparr>) b'"
      by (auto simp: unf t1_def split: option.splits if_splits)
  }
qed

subsection \<open>The invariant holds in every reachable state\<close>

lemma ht_probe_insert_step:
  assumes inv: "ht_inv t" and lt: "bucket_of t hv < length (ht_b t)"
    and fresh: "\<forall>x \<in> set (chain_slots (ht_b t ! bucket_of t hv)). hn_h x \<noteq> hv"
    and t1: "ht_b t1 = (ht_b t)[bucket_of t hv := hb_insert_quick (ht_b t ! bucket_of t hv) \<lparr>hn_h = hv, hn_v = v\<rparr>]"
      "ht_n t1 = ht_n t" "ht_rand t1 = ht_rand t"
  shows "ht_inv t1" and "live (all_slots t1) = live (all_slots t) + live [\<lparr>hn_h = hv, hn_v = v\<rparr>]"
    and "absent t hv"
proof -
  let ?i = "bucket_of t hv"
  let ?p = "\<lparr>hn_h = hv, hn_v = v\<rparr>"
  let ?b' = "hb_insert_quick (ht_b t ! ?i) ?p"
  have lb: "live (chain_slots ?b') = live (chain_slots (ht_b t ! ?i)) + live [?p]"
    by (rule hb_insert_quick_live)
  from live_buckets_add [OF lt lb]
  show live1: "live (all_slots t1) = live (all_slots t) + live [?p]"
    by (simp add: all_slots_def t1)
  show ab: "absent t hv"
    unfolding absent_live
  proof
    fix x assume x: "x \<in># live (all_slots t)"
    show "hn_h x \<noteq> hv"
    proof
      assume hx: "hn_h x = hv"
      from inv x have "x \<in># live (chain_slots (ht_b t ! bucket_of t (hn_h x)))"
        by (rule live_in_bucket)
      with hx have "x \<in> set (chain_slots (ht_b t ! ?i))" by (simp add: live_member)
      with fresh hx show False by blast
    qed
  qed
  from inv have sh: "shaped t" and pl: "placed (ht_n t) (ht_rand t) (ht_b t)"
    and un: "uniq (live (all_slots t))"
    by (simp_all add: ht_inv_def)
  from sh have "shaped t1" by (simp add: shaped_def t1)
  moreover have "placed (ht_n t1) (ht_rand t1) (ht_b t1)"
    unfolding t1
  proof (rule placed_update [OF pl lt], rule ballI)
    fix y assume "y \<in># live (chain_slots ?b')"
    with lb have "y \<in># live (chain_slots (ht_b t ! ?i)) \<or> y \<in># live [?p]" by simp
    then show "y \<in># live (chain_slots (ht_b t ! ?i)) \<or> unat (ht_hash (hn_h y) (ht_n t) (ht_rand t)) = ?i"
      by (auto simp: live_member bucket_of_def)
  qed
  moreover have "uniq (live (all_slots t1))"
  proof (cases "hv = 0")
    case True
    with un show ?thesis by (simp add: live1 live_zero)
  next
    case False
    then have "live [?p] = {#?p#}" by (simp add: live_def)
    moreover from un ab have "uniq (add_mset ?p (live (all_slots t)))"
      by (intro uniq_add) (simp_all add: absent_live)
    ultimately show ?thesis by (simp add: live1)
  qed
  ultimately show "ht_inv t1" by (simp add: ht_inv_def)
qed

lemma resize_inv:
  assumes "ht_inv t" "resize t salt = Some t'" "ht_b t' \<noteq> []"
  shows "ht_inv t'" and "length (ht_b t') = 2 * length (ht_b t)"
proof -
  note r = resize_Some [OF assms(2)]
  from assms(3) r(1) have nz: "ht_n t * 2 \<noteq> 0" by auto
  from assms(1) have sh: "shaped t" by (simp add: ht_inv_def)
  from shaped_double [OF sh nz r(4) r(1)]
  show "length (ht_b t') = 2 * length (ht_b t)" and "ht_inv t'"
    using r(2,3) assms(1) by (simp_all add: ht_inv_def)
qed

lemma ht_probe_inv:
  assumes inv: "ht_inv t" and pr: "ht_probe t hv v salt = Some (r, t')"
  shows "ht_inv t'"
    and "r = Exists \<Longrightarrow> t' = t"
    and "r = Inserted \<Longrightarrow> live (all_slots t') = live (all_slots t) + live [\<lparr>hn_h = hv, hn_v = v\<rparr>]"
    and "r = Inserted \<Longrightarrow> absent t hv"
proof -
  let ?i = "bucket_of t hv"
  let ?p = "\<lparr>hn_h = hv, hn_v = v\<rparr>"
  let ?b' = "hb_insert_quick (ht_b t ! ?i) ?p"
  let ?t1 = "t\<lparr>ht_b := (ht_b t)[?i := ?b'], ht_nodes := ht_nodes t + 1\<rparr>"
  let ?c = "hb_n (ht_b t ! ?i) = 0 \<and> FILLPCT < ((ht_fill t + 1) * 100) div unat (1 + ht_n t)"
  show ex: "r = Exists \<Longrightarrow> t' = t" using pr by (auto dest: ht_probe_Exists(1))
  have ins: "ht_inv t' \<and> live (all_slots t') = live (all_slots t) + live [?p] \<and> absent t hv"
    if r: "r = Inserted"
  proof -
    note P = ht_probe_Inserted [OF pr [unfolded r]]
    have step: "ht_inv t1 \<and> live (all_slots t1) = live (all_slots t) + live [?p] \<and> absent t hv"
      if "ht_b t1 = (ht_b t)[?i := ?b']" "ht_n t1 = ht_n t" "ht_rand t1 = ht_rand t" for t1
      using ht_probe_insert_step [OF inv P(1) P(2) that] by simp
    show ?thesis
    proof (cases ?c)
      case False
      from P(5) [OF False] have "ht_b t' = (ht_b t)[?i := ?b']" "ht_n t' = ht_n t" "ht_rand t' = ht_rand t"
        by simp_all
      then show ?thesis by (rule step)
    next
      case True
      let ?t2 = "?t1\<lparr>ht_fill := ht_fill t + 1, ht_splits := ht_splits t + 1\<rparr>"
      from P(4) [OF True] obtain t3 where t3: "resize ?t2 salt = Some t3"
        "bucket_of t3 hv < length (ht_b t3)" "t' = upd_stats t3 (ht_b t3 ! bucket_of t3 hv)"
        by blast
      have s2: "ht_inv ?t2 \<and> live (all_slots ?t2) = live (all_slots t) + live [?p] \<and> absent t hv"
        by (rule step) simp_all
      from t3(2) have "ht_b t3 \<noteq> []" by auto
      with s2 t3(1) have "ht_inv t3" by (intro resize_inv(1) [of ?t2 salt t3]) simp_all
      moreover from resize_Some(3) [OF t3(1)] s2
      have "live (all_slots t3) = live (all_slots t) + live [?p]" by simp
      moreover have "ht_inv t' = ht_inv t3" "all_slots t' = all_slots t3"
        by (rule ht_inv_cong; simp add: t3(3))+
      ultimately show ?thesis using s2 by simp
    qed
  qed
  then show "r = Inserted \<Longrightarrow> live (all_slots t') = live (all_slots t) + live [?p]"
    and "r = Inserted \<Longrightarrow> absent t hv" by simp_all
  show "ht_inv t'" using ins ex inv by (cases r) simp_all
qed

lemma ht_init_inv:
  assumes "ht_init nlog2 salt = Some t"
  shows "ht_inv t"
proof -
  let ?k = "unat (if nlog2 = 0 then 10 else nlog2)"
  from assms have k: "\<not> INT_MAX < 2 ^ ?k"
    and t: "t = \<lparr>ht_b = replicate (2 ^ ?k) new_hb, ht_n = 2 ^ ?k, ht_rand = salt,
                 ht_nodes = 0, ht_fill = 0, ht_splits = 0, ht_bagmax = 0, ht_maxn = 0\<rparr>"
    by (auto simp: ht_init_def Let_def split: if_splits)
  from k have "(2::int) ^ ?k < 2 ^ 31" by (simp add: INT_MAX_def)
  then have "?k < 31" by (rule power_less_imp_less_exp [rotated]) simp
  then have "?k < 64" by simp
  then have "shaped t" unfolding shaped_def t by (intro exI [of _ ?k]) simp
  moreover have "placed (ht_n t) (ht_rand t) (ht_b t)"
    by (simp add: placed_def t chain_slots_def new_hb_def live_def)
  moreover have "uniq (live (all_slots t))"
    by (simp add: uniq_def t all_slots_def chain_slots_def new_hb_def live_def)
  ultimately show ?thesis by (simp add: ht_inv_def)
qed

lemma reachable_inv: "reachable t \<Longrightarrow> ht_inv t"
proof (induction rule: reachable.induct)
  case (r_init nlog2 salt t)
  then show ?case by (rule ht_init_inv)
next
  case (r_probe t hv v salt r t')
  then show ?case by (auto dest: ht_probe_inv(1))
next
  case (r_find t hv l t')
  then show ?case unfolding ht_find_def by (auto dest: ht_findx_inv)
next
  case (r_remove t hv l t')
  then show ?case unfolding ht_remove_def by (auto dest: ht_findx_inv)
qed

subsection \<open>The shape of the buckets\<close>

lemma store_shape:
  assumes "\<forall>g \<in> set gs. length g = L"
  shows "length (store gs pos p) = length gs" and "\<forall>g \<in> set (store gs pos p). length g = L"
proof -
  obtain k i where pos: "pos = (k, i)" by (cases pos)
  show "length (store gs pos p) = length gs" by (simp add: store_def pos)
  show "\<forall>g \<in> set (store gs pos p). length g = L"
  proof (cases "k < length gs")
    case False
    then have "store gs pos p = gs" by (simp add: store_def pos list_update_beyond)
    with assms show ?thesis by simp
  next
    case True
    then have "gs ! k \<in> set gs" by simp
    with assms have "length ((gs ! k)[i := p]) = L" by simp
    moreover have "set (store gs pos p) \<subseteq> insert ((gs ! k)[i := p]) (set gs)"
      unfolding store_def pos by (simp add: set_update_subset_insert)
    ultimately show ?thesis using assms by blast
  qed
qed

lemma hb_insert_quick_wf:
  assumes "hb_wf b"
  shows "hb_wf (hb_insert_quick b p)"
proof (cases "scan_chain (\<lambda>x. hn_h x = 0) (hb_head b)")
  case None
  with assms show ?thesis
    by (simp add: hb_insert_quick_def hb_wf_def new_bag_def)
next
  case (Some pos)
  from assms have "\<forall>g \<in> set (hb_head b). length g = FASTHT_BAGSZ" by (simp add: hb_wf_def)
  from store_shape [OF this, of pos p] Some assms show ?thesis
    by (simp add: hb_insert_quick_def hb_wf_def)
qed

lemma new_hb_wf: "hb_wf new_hb"
  by (simp add: hb_wf_def new_hb_def)

lemma wf_update:
  assumes "\<forall>b \<in> set bs. hb_wf b" "hb_wf b'"
  shows "\<forall>b \<in> set (bs[i := b']). hb_wf b"
  using assms set_update_subset_insert [of bs i b'] by auto

lemma fold_opt_inv:
  assumes "\<And>x s s'. I s \<Longrightarrow> f x s = Some s' \<Longrightarrow> I s'"
    and "I s" "fold_opt f xs s = Some s'"
  shows "I s'"
  using assms(2,3)
proof (induction xs arbitrary: s)
  case Nil
  then show ?case by simp
next
  case (Cons x xs)
  from Cons.prems(2) obtain s1 where s1: "f x s = Some s1" "fold_opt f xs s1 = Some s'"
    by (auto split: option.splits)
  from Cons.prems(1) s1(1) have "I s1" by (rule assms(1))
  then show ?case using s1(2) by (rule Cons.IH)
qed

lemma move_node_wf:
  assumes "\<forall>b \<in> set (rs_b s). hb_wf b" "move_node n salt p s = Some s'"
  shows "\<forall>b \<in> set (rs_b s'). hb_wf b"
proof (cases "hn_h p = 0")
  case True
  with assms show ?thesis by (simp add: move_node_def)
next
  case False
  let ?j = "unat (ht_hash (hn_h p) n salt)"
  from assms(2) False have j: "?j < length (rs_b s)"
    by (auto simp: move_node_def Let_def split: if_splits)
  with assms(2) False have b': "rs_b s' = (rs_b s)[?j := hb_insert_quick (rs_b s ! ?j) p]"
    by (auto simp: move_node_def Let_def)
  from assms(1) j have "hb_wf (rs_b s ! ?j)" by simp
  then have "hb_wf (hb_insert_quick (rs_b s ! ?j) p)" by (rule hb_insert_quick_wf)
  with assms(1) show ?thesis unfolding b' by (rule wf_update)
qed

lemma resize_wf:
  assumes "resize t salt = Some t'"
  shows "ht_wf t'"
proof -
  let ?n = "ht_n t * 2"
  let ?I = "\<lambda>s. \<forall>b \<in> set (rs_b s). hb_wf b"
  let ?s0 = "\<lparr>rs_b = replicate (unat ?n) new_hb, rs_maxbags = 0, rs_maxn = 0, rs_fill = 0\<rparr>"
  from assms obtain s where
    s: "fold_opt (\<lambda>ob. fold_opt (\<lambda>g. fold_opt (move_node ?n salt) g) (hb_head ob)) (ht_b t) ?s0 = Some s"
    and t': "ht_b t' = rs_b s"
    by (auto simp: resize_def Let_def split: option.splits)
  have bag: "?I s2" if "?I s1" "fold_opt (move_node ?n salt) g s1 = Some s2" for g s1 s2
    using move_node_wf that by (rule fold_opt_inv [where I = ?I])
  have chain: "?I s2" if "?I s1" "fold_opt (\<lambda>g. fold_opt (move_node ?n salt) g) gs s1 = Some s2"
    for gs s1 s2
    using bag that by (rule fold_opt_inv [where I = ?I])
  have I0: "?I ?s0" by (simp add: new_hb_wf)
  have "?I s" using chain I0 s by (rule fold_opt_inv [where I = ?I])
  then show ?thesis by (simp add: ht_wf_def t')
qed

lemma ht_findx_wf:
  assumes "ht_wf t" "ht_findx t hv z = Some (l, t')"
  shows "ht_wf t'"
proof (cases "z \<and> l \<noteq> NotFound")
  case False
  have "t' = t"
  proof (cases l)
    case NotFound
    with assms(2) show ?thesis by (auto dest: ht_findx_NotFound(1))
  next
    case (Found v)
    with False have "\<not> z" by simp
    with assms(2) Found show ?thesis by (auto elim: ht_findx_Found)
  qed
  with assms(1) show ?thesis by simp
next
  case True
  then obtain v where l: "l = Found v" and z: z by (cases l) auto
  let ?i = "bucket_of t hv"
  let ?gs = "hb_head (ht_b t ! ?i)"
  from assms(2) [unfolded l] obtain k j where lt: "?i < length (ht_b t)"
    and kj: "k < length ?gs"
    and t': "t' = t\<lparr>ht_b := (ht_b t)[?i := (ht_b t ! ?i)\<lparr>hb_head := ?gs[k := (?gs ! k)[j := zn]]\<rparr>]\<rparr>"
    by (rule ht_findx_Found) (simp add: z)
  from assms(1) lt have wf: "hb_wf (ht_b t ! ?i)" by (simp add: ht_wf_def)
  then have len: "\<forall>g \<in> set ?gs. length g = FASTHT_BAGSZ" by (simp add: hb_wf_def)
  have st: "store ?gs (k, j) zn = ?gs[k := (?gs ! k)[j := zn]]" by (simp add: store_def)
  from store_shape [OF len, of "(k, j)" zn]
  have "length (?gs[k := (?gs ! k)[j := zn]]) = length ?gs"
    "\<forall>g \<in> set (?gs[k := (?gs ! k)[j := zn]]). length g = FASTHT_BAGSZ"
    unfolding st by blast+
  moreover from wf kj have "hb_n (ht_b t ! ?i) \<noteq> 0" "hb_bags (ht_b t ! ?i) = length ?gs"
    by (auto simp: hb_wf_def)
  ultimately have "hb_wf ((ht_b t ! ?i)\<lparr>hb_head := ?gs[k := (?gs ! k)[j := zn]]\<rparr>)"
    by (simp add: hb_wf_def)
  with assms(1) have "\<forall>b \<in> set ((ht_b t)[?i := (ht_b t ! ?i)
      \<lparr>hb_head := ?gs[k := (?gs ! k)[j := zn]]\<rparr>]). hb_wf b"
    unfolding ht_wf_def by (rule wf_update)
  then show ?thesis by (simp add: ht_wf_def t')
qed

lemma ht_probe_wf:
  assumes "ht_wf t" "ht_probe t hv v salt = Some (r, t')"
  shows "ht_wf t'"
proof (cases r)
  case Exists
  with assms show ?thesis by (auto dest: ht_probe_Exists(1))
next
  case Inserted
  let ?i = "bucket_of t hv"
  let ?b' = "hb_insert_quick (ht_b t ! ?i) \<lparr>hn_h = hv, hn_v = v\<rparr>"
  note P = ht_probe_Inserted [OF assms(2) [unfolded Inserted]]
  show ?thesis
  proof (cases "hb_n (ht_b t ! ?i) = 0
         \<and> FILLPCT < ((ht_fill t + 1) * 100) div unat (1 + ht_n t)")
    case True
    let ?t2 = "t\<lparr>ht_b := (ht_b t)[?i := ?b'], ht_nodes := ht_nodes t + 1,
        ht_fill := ht_fill t + 1, ht_splits := ht_splits t + 1\<rparr>"
    from P(4) [OF True] obtain t3 where t3: "resize ?t2 salt = Some t3"
      "t' = upd_stats t3 (ht_b t3 ! bucket_of t3 hv)" by auto
    from t3(1) have "ht_wf t3" by (rule resize_wf)
    then show ?thesis by (simp add: ht_wf_def t3(2))
  next
    case False
    from assms(1) P(1) have "hb_wf (ht_b t ! ?i)" by (simp add: ht_wf_def)
    then have "hb_wf ?b'" by (rule hb_insert_quick_wf)
    with assms(1) have "\<forall>b \<in> set ((ht_b t)[?i := ?b']). hb_wf b"
      unfolding ht_wf_def by (rule wf_update)
    with P(5) [OF False] show ?thesis by (simp add: ht_wf_def)
  qed
qed

lemma reachable_wf: "reachable t \<Longrightarrow> ht_wf t"
proof (induction rule: reachable.induct)
  case (r_init nlog2 salt t)
  then have "ht_b t = replicate (2 ^ unat (if nlog2 = 0 then 10 else nlog2)) new_hb"
    by (auto simp: ht_init_def Let_def split: if_splits)
  then show ?case by (simp add: ht_wf_def new_hb_wf)
next
  case (r_probe t hv v salt r t')
  from r_probe.IH r_probe.hyps(2) show ?case by (rule ht_probe_wf)
next
  case (r_find t hv l t')
  from r_find.IH r_find.hyps(2) [unfolded ht_find_def] show ?case by (rule ht_findx_wf)
next
  case (r_remove t hv l t')
  from r_remove.IH r_remove.hyps(2) [unfolded ht_remove_def] show ?case by (rule ht_findx_wf)
qed

lemma reachable_bucket_shape:
  assumes "reachable t" "i < length (ht_b t)"
  shows "hb_bags (ht_b t ! i) = length (hb_head (ht_b t ! i))"
    and "\<forall>g \<in> set (hb_head (ht_b t ! i)). length g = FASTHT_BAGSZ"
    and "hb_n (ht_b t ! i) = 0 \<Longrightarrow> chain_slots (ht_b t ! i) = []"
proof -
  from assms(2) have "ht_b t ! i \<in> set (ht_b t)" by simp
  with reachable_wf [OF assms(1)] have wf: "hb_wf (ht_b t ! i)" by (simp add: ht_wf_def)
  from wf show "hb_bags (ht_b t ! i) = length (hb_head (ht_b t ! i))"
    and "\<forall>g \<in> set (hb_head (ht_b t ! i)). length g = FASTHT_BAGSZ"
    by (simp_all add: hb_wf_def)
  from wf show "chain_slots (ht_b t ! i) = []" if "hb_n (ht_b t ! i) = 0"
    using that by (simp add: hb_wf_def chain_slots_def)
qed

subsection \<open>Consequences for the public operations\<close>

lemma ht_find_present:
  assumes "ht_inv t" "present t hv v"
  shows "ht_find t hv = Some (Found v, t)"
proof -
  from ht_findx_present [OF assms, of False]
  obtain t' where f: "ht_findx t hv False = Some (Found v, t')" by blast
  then have "t' = t" by (rule ht_findx_Found) simp
  with f show ?thesis by (simp add: ht_find_def)
qed

lemma present_after_insert:
  assumes "live (all_slots t') = live (all_slots t) + live [\<lparr>hn_h = hv, hn_v = v\<rparr>]"
  shows "hv \<noteq> 0 \<Longrightarrow> present t' hv v" and "present t hv' v' \<Longrightarrow> present t' hv' v'"
proof -
  show "present t' hv v" if "hv \<noteq> 0"
  proof -
    from that have "live [\<lparr>hn_h = hv, hn_v = v\<rparr>] = {#\<lparr>hn_h = hv, hn_v = v\<rparr>#}"
      by (simp add: live_def)
    then show ?thesis unfolding present_live assms by simp
  qed
  show "present t' hv' v'" if "present t hv' v'"
    using that unfolding present_live assms by simp
qed

lemma ht_probe_present:
  assumes "ht_inv t" "present t hv v1"
  shows "ht_probe t hv v2 salt = Some (Exists, t)"
proof -
  let ?i = "bucket_of t hv"
  let ?p = "\<lparr>hn_h = hv, hn_v = v2\<rparr>"
  from assms(1) have "shaped t" by (simp add: ht_inv_def)
  then have lt: "?i < length (ht_b t)" by (rule bucket_of_less)
  from assms(2) have "\<lparr>hn_h = hv, hn_v = v1\<rparr> \<in># live (all_slots t)" by (simp add: present_live)
  with assms(1) have "\<lparr>hn_h = hv, hn_v = v1\<rparr> \<in># live (chain_slots (ht_b t ! ?i))"
    using live_in_bucket [of t "\<lparr>hn_h = hv, hn_v = v1\<rparr>"] by simp
  then have "\<lparr>hn_h = hv, hn_v = v1\<rparr> \<in> set (concat (hb_head (ht_b t ! ?i)))"
    by (simp add: live_member chain_slots_def del: set_concat)
  moreover have "hn_h \<lparr>hn_h = hv, hn_v = v1\<rparr> = hn_h ?p" by simp
  ultimately have "\<exists>x \<in> set (concat (hb_head (ht_b t ! ?i))). hn_h x = hn_h ?p"
    by (rule bexI [rotated])
  then have "scan_chain (\<lambda>x. hn_h x = hn_h ?p) (hb_head (ht_b t ! ?i)) \<noteq> None"
    unfolding scan_chain_None by blast
  then have "hb_insert (ht_b t ! ?i) ?p = (Exists, ht_b t ! ?i)"
    by (auto simp: hb_insert_def)
  with lt show ?thesis
    by (simp add: ht_probe_def Let_def bucket_of_def [symmetric])
qed

lemma uniq_slots:
  assumes "uniq (live xs)" "hv \<noteq> 0"
  shows "length (filter (\<lambda>x. hn_h x = hv) xs) \<le> 1"
proof -
  from assms(2) have "filter (\<lambda>x. hn_h x = hv) xs = filter (\<lambda>x. hn_h x = hv) (filter (\<lambda>x. hn_h x \<noteq> 0) xs)"
    by (auto intro: filter_cong)
  then have "length (filter (\<lambda>x. hn_h x = hv) xs)
      = size (filter_mset (\<lambda>x. hn_h x = hv) (live xs))"
    by (simp add: live_def flip: mset_filter)
  with assms(1) show ?thesis by (simp add: uniq_def)
qed

lemma ht_probe_nodes:
  assumes "ht_probe t hv v salt = Some (r, t')"
  shows "ht_nodes t' = ht_nodes t + (if r = Inserted then 1 else 0)"
proof (cases r)
  case Exists
  with assms show ?thesis by (auto dest: ht_probe_Exists(1))
next
  case Inserted
  note P = ht_probe_Inserted [OF assms [unfolded Inserted]]
  show ?thesis
  proof (cases "hb_n (ht_b t ! bucket_of t hv) = 0
         \<and> FILLPCT < ((ht_fill t + 1) * 100) div unat (1 + ht_n t)")
    case True
    from P(4) [OF True] obtain t3 where "resize (t\<lparr>ht_b := (ht_b t)
        [bucket_of t hv := hb_insert_quick (ht_b t ! bucket_of t hv) \<lparr>hn_h = hv, hn_v = v\<rparr>],
        ht_nodes := ht_nodes t + 1, ht_fill := ht_fill t + 1, ht_splits := ht_splits t + 1\<rparr>) salt = Some t3"
      and "t' = upd_stats t3 (ht_b t3 ! bucket_of t3 hv)" by auto
    with resize_Some(6) [OF this(1)] Inserted show ?thesis by simp
  next
    case False
    from P(5) [OF False] Inserted show ?thesis by simp
  qed
qed

lemma ht_findx_nodes:
  assumes "ht_findx t hv z = Some (l, t')"
  shows "ht_nodes t' = ht_nodes t"
proof (cases l)
  case NotFound
  with assms show ?thesis by (auto dest: ht_findx_NotFound(1))
next
  case (Found v)
  with assms show ?thesis by (auto elim!: ht_findx_Found)
qed

lemma step_nodes:
  assumes "step t c = Some (r, t')"
  shows "ht_nodes t' = ht_nodes t + (if r = Probed Inserted then 1 else 0)"
proof (cases c)
  case (Probe hv v salt)
  with assms obtain pr where "ht_probe t hv v salt = Some (pr, t')" "r = Probed pr" by auto
  with ht_probe_nodes [OF this(1)] show ?thesis by simp
next
  case (Find hv)
  with assms obtain l where "ht_findx t hv False = Some (l, t')" "r = Looked l"
    by (auto simp: ht_find_def)
  with ht_findx_nodes [OF this(1)] show ?thesis by simp
next
  case (Remove hv)
  with assms obtain l where "ht_findx t hv True = Some (l, t')" "r = Looked l"
    by (auto simp: ht_remove_def)
  with ht_findx_nodes [OF this(1)] show ?thesis by simp
qed

lemma run_nodes:
  "run t cs = Some (rs, t') \<Longrightarrow>
   ht_nodes t' = ht_nodes t + length (filter (\<lambda>r. r = Probed Inserted) rs)"
proof (induction cs arbitrary: t rs)
  case Nil
  then show ?case by simp
next
  case (Cons c cs)
  from Cons.prems obtain r t1 rs1 where s: "step t c = Some (r, t1)"
    and rn: "run t1 cs = Some (rs1, t')" and rs: "rs = r # rs1"
    by (auto split: option.splits)
  from Cons.IH [OF rn] step_nodes [OF s] show ?case by (simp add: rs)
qed

text \<open>The histories reach exactly the reachable states.\<close>

lemma run_snoc:
  "run t (cs @ [c]) =
     (case run t cs of
        None \<Rightarrow> None
      | Some (rs, t1) \<Rightarrow>
          (case step t1 c of None \<Rightarrow> None | Some (r, t2) \<Rightarrow> Some (rs @ [r], t2)))"
  by (induction cs arbitrary: t) (auto split: option.splits)

lemma step_reachable: "reachable t \<Longrightarrow> step t c = Some (r, t') \<Longrightarrow> reachable t'"
  by (cases c) (auto intro: reachable.intros)

lemma run_reachable: "reachable t \<Longrightarrow> run t cs = Some (rs, t') \<Longrightarrow> reachable t'"
proof (induction cs arbitrary: t rs)
  case Nil
  then show ?case by simp
next
  case (Cons c cs)
  from Cons.prems(2) obtain r t1 rs1 where s: "step t c = Some (r, t1)"
    and rn: "run t1 cs = Some (rs1, t')"
    by (auto split: option.splits)
  from Cons.prems(1) s have "reachable t1" by (rule step_reachable)
  then show ?case using rn by (rule Cons.IH)
qed

lemma reachable_run:
  "reachable t \<longleftrightarrow>
     (\<exists>nlog2 salt t0 cs rs. ht_init nlog2 salt = Some t0 \<and> run t0 cs = Some (rs, t))"
proof
  assume "reachable t"
  then show "\<exists>nlog2 salt t0 cs rs. ht_init nlog2 salt = Some t0 \<and> run t0 cs = Some (rs, t)"
  proof (induction rule: reachable.induct)
    case (r_init nlog2 salt t)
    then have "ht_init nlog2 salt = Some t \<and> run t [] = Some ([], t)" by simp
    then show ?case by blast
  next
    case (r_probe t hv v salt r t')
    then obtain nlog2 s0 t0 cs rs where "ht_init nlog2 s0 = Some t0" "run t0 cs = Some (rs, t)"
      by blast
    moreover from this(2) r_probe.hyps(2)
    have "run t0 (cs @ [Probe hv v salt]) = Some (rs @ [Probed r], t')" by (simp add: run_snoc)
    ultimately show ?case by blast
  next
    case (r_find t hv l t')
    then obtain nlog2 s0 t0 cs rs where "ht_init nlog2 s0 = Some t0" "run t0 cs = Some (rs, t)"
      by blast
    moreover from this(2) r_find.hyps(2)
    have "run t0 (cs @ [Find hv]) = Some (rs @ [Looked l], t')" by (simp add: run_snoc)
    ultimately show ?case by blast
  next
    case (r_remove t hv l t')
    then obtain nlog2 s0 t0 cs rs where "ht_init nlog2 s0 = Some t0" "run t0 cs = Some (rs, t)"
      by blast
    moreover from this(2) r_remove.hyps(2)
    have "run t0 (cs @ [Remove hv]) = Some (rs @ [Looked l], t')" by (simp add: run_snoc)
    ultimately show ?case by blast
  qed
next
  assume "\<exists>nlog2 salt t0 cs rs. ht_init nlog2 salt = Some t0 \<and> run t0 cs = Some (rs, t)"
  then obtain nlog2 salt t0 cs rs where "ht_init nlog2 salt = Some t0" "run t0 cs = Some (rs, t)"
    by blast
  then show "reachable t" by (auto intro: run_reachable r_init)
qed

lemma ht_probe_splits:
  assumes "ht_probe t hv v salt = Some (Inserted, t')"
  shows "ht_splits t' = ht_splits t + (if crosses t hv then 1 else 0)"
proof (cases "crosses t hv")
  case True
  then have c: "hb_n (ht_b t ! bucket_of t hv) = 0
         \<and> FILLPCT < ((ht_fill t + 1) * 100) div unat (1 + ht_n t)" by (simp add: crosses_def)
  from ht_probe_Inserted(4) [OF assms c] obtain t3 where r: "resize (t\<lparr>ht_b := (ht_b t)
        [bucket_of t hv := hb_insert_quick (ht_b t ! bucket_of t hv) \<lparr>hn_h = hv, hn_v = v\<rparr>],
        ht_nodes := ht_nodes t + 1, ht_fill := ht_fill t + 1, ht_splits := ht_splits t + 1\<rparr>) salt = Some t3"
      and "t' = upd_stats t3 (ht_b t3 ! bucket_of t3 hv)" by auto
  with resize_Some(7) [OF r] True show ?thesis by simp
next
  case False
  then have c: "\<not> (hb_n (ht_b t ! bucket_of t hv) = 0
         \<and> FILLPCT < ((ht_fill t + 1) * 100) div unat (1 + ht_n t))" by (simp add: crosses_def)
  from ht_probe_Inserted(5) [OF assms c] False show ?thesis by simp
qed

text \<open>Up to 30 a table has \<open>2 ^ nlog2\<close> buckets, and the bucket array of every reachable
  state has a power of two as its length, which a probe either keeps or doubles.\<close>

lemma ht_init_buckets:
  assumes "unat nlog2 \<le> 30"
  shows "\<exists>t. ht_init nlog2 salt = Some t
           \<and> length (ht_b t) = (if nlog2 = 0 then 1024 else 2 ^ unat nlog2)"
proof -
  let ?k = "unat (if nlog2 = 0 then 10 else nlog2)"
  from assms have "?k \<le> 30" by simp
  then have "(2::int) ^ ?k \<le> 2 ^ 30" by (intro power_increasing) simp_all
  then have "\<not> INT_MAX < 2 ^ ?k" by (simp add: INT_MAX_def)
  then show ?thesis by (auto simp: ht_init_def Let_def)
qed

lemma reachable_power_of_two:
  assumes "reachable t"
  shows "\<exists>k<64. length (ht_b t) = 2 ^ k \<and> ht_n t = 2 ^ k"
  using reachable_inv [OF assms] unfolding ht_inv_def shaped_def by blast

lemma ht_probe_keeps_or_doubles:
  assumes "reachable t" "ht_probe t hv v salt = Some (r, t')"
  shows "length (ht_b t') = (if r = Inserted \<and> crosses t hv then 2 * length (ht_b t)
                             else length (ht_b t))"
proof (cases r)
  case Exists
  with assms(2) show ?thesis by (auto dest: ht_probe_Exists(1))
next
  case Inserted
  from assms(1) have inv: "ht_inv t" by (rule reachable_inv)
  note P = ht_probe_Inserted [OF assms(2) [unfolded Inserted]]
  show ?thesis
  proof (cases "crosses t hv")
    case True
    then have c: "hb_n (ht_b t ! bucket_of t hv) = 0
         \<and> FILLPCT < ((ht_fill t + 1) * 100) div unat (1 + ht_n t)" by (simp add: crosses_def)
    let ?t2 = "t\<lparr>ht_b := (ht_b t)[bucket_of t hv :=
        hb_insert_quick (ht_b t ! bucket_of t hv) \<lparr>hn_h = hv, hn_v = v\<rparr>],
      ht_nodes := ht_nodes t + 1, ht_fill := ht_fill t + 1, ht_splits := ht_splits t + 1\<rparr>"
    from P(4) [OF c] obtain t3 where t3: "resize ?t2 salt = Some t3"
      "bucket_of t3 hv < length (ht_b t3)" "t' = upd_stats t3 (ht_b t3 ! bucket_of t3 hv)"
      by auto
    have inv2: "ht_inv ?t2"
      by (rule ht_probe_insert_step(1) [OF inv P(1) P(2)]) simp_all
    from t3(2) have ne: "ht_b t3 \<noteq> []" by auto
    from resize_inv(2) [OF inv2 t3(1) ne] True Inserted show ?thesis by (simp add: t3(3))
  next
    case False
    then have c: "\<not> (hb_n (ht_b t ! bucket_of t hv) = 0
         \<and> FILLPCT < ((ht_fill t + 1) * 100) div unat (1 + ht_n t))" by (simp add: crosses_def)
    from P(5) [OF c] False show ?thesis by simp
  qed
qed

text \<open>The operations have a result in every state that satisfies the invariant, unless
  the doubled bucket count does not fit the 64 bits of \<^verbatim>\<open>h->n\<close>.\<close>

lemma ht_findx_total:
  assumes "ht_inv t"
  shows "\<exists>l t'. ht_findx t hv z = Some (l, t')"
proof -
  from assms have "bucket_of t hv < length (ht_b t)" by (simp add: ht_inv_def bucket_of_less)
  then show ?thesis
    by (simp add: ht_findx_def Let_def bucket_of_def [symmetric] split: option.splits)
qed

lemma ht_probe_total:
  assumes inv: "ht_inv t" and nz: "ht_n t * 2 \<noteq> 0"
  shows "\<exists>r t'. ht_probe t hv v salt = Some (r, t')"
proof -
  let ?i = "bucket_of t hv"
  let ?p = "\<lparr>hn_h = hv, hn_v = v\<rparr>"
  from inv have lt: "?i < length (ht_b t)" by (simp add: ht_inv_def bucket_of_less)
  obtain r b' where ins: "hb_insert (ht_b t ! ?i) ?p = (r, b')" by (cases "hb_insert (ht_b t ! ?i) ?p")
  show ?thesis
  proof (cases r)
    case Exists
    with lt ins show ?thesis by (simp add: ht_probe_def Let_def bucket_of_def [symmetric])
  next
    case Inserted
    let ?t2 = "t\<lparr>ht_b := (ht_b t)[?i := b'], ht_nodes := ht_nodes t + 1,
        ht_fill := ht_fill t + 1, ht_splits := ht_splits t + 1\<rparr>"
    from nz have "ht_n ?t2 * 2 \<noteq> 0" by simp
    then obtain t3 where t3: "resize ?t2 salt = Some t3" using resize_total by blast
    from resize_Some(1,4) [OF t3] nz have "ht_n t3 \<noteq> 0" "length (ht_b t3) = unat (ht_n t3)"
      by simp_all
    with ht_hash_less [of "ht_n t3" hv "ht_rand t3"]
    have "\<not> length (ht_b t3) \<le> unat (ht_hash hv (ht_n t3) (ht_rand t3))" by simp
    with lt ins Inserted t3 show ?thesis
      by (simp add: ht_probe_def Let_def bucket_of_def [symmetric])
  qed
qed

text \<open>A probe of a nonzero hash value that no live node holds inserts it, and so does
  a probe that crosses the fill threshold.\<close>

lemma ht_probe_absent_inserts:
  assumes "reachable t" "hv \<noteq> 0" "absent t hv" "ht_n t * 2 \<noteq> 0"
  shows "\<exists>t'. ht_probe t hv v salt = Some (Inserted, t')"
proof -
  from assms(1) have inv: "ht_inv t" by (rule reachable_inv)
  from ht_probe_total [OF inv assms(4)] obtain r t' where p: "ht_probe t hv v salt = Some (r, t')"
    by blast
  have "r = Inserted"
  proof (cases r)
    case Exists
    from ht_probe_Exists(2,3) [OF p [unfolded Exists]]
    obtain x where "bucket_of t hv < length (ht_b t)"
      "x \<in> set (chain_slots (ht_b t ! bucket_of t hv))" "hn_h x = hv" by blast
    then have "x \<in> set (all_slots t)" "hn_h x = hv" by (auto intro: slot_in_all)
    with assms(2,3) show ?thesis unfolding absent_def by blast
  qed
  with p show ?thesis by blast
qed

lemma ht_probe_crossing_inserts:
  assumes "reachable t" "crosses t hv" "ht_n t * 2 \<noteq> 0"
  shows "\<exists>t'. ht_probe t hv v salt = Some (Inserted, t')"
proof -
  from assms(1) have inv: "ht_inv t" by (rule reachable_inv)
  from ht_probe_total [OF inv assms(3)] obtain r t' where p: "ht_probe t hv v salt = Some (r, t')"
    by blast
  have "r = Inserted"
  proof (cases r)
    case Exists
    from ht_probe_Exists(2,3) [OF p [unfolded Exists]]
    obtain x where lt: "bucket_of t hv < length (ht_b t)"
      and x: "x \<in> set (chain_slots (ht_b t ! bucket_of t hv))" by blast
    from assms(2) have "hb_n (ht_b t ! bucket_of t hv) = 0" by (simp add: crosses_def)
    with reachable_bucket_shape(3) [OF assms(1) lt] x show ?thesis by simp
  qed
  with p show ?thesis by blast
qed

section \<open>The claims\<close>

text \<open>
  C1. In every reachable state, when a probe of a nonzero hash value \<open>hv\<close> with the value
  \<open>v\<close> returns \<open>Inserted\<close>, a find of \<open>hv\<close> that follows it returns \<open>Found v\<close>. (A
  probe returns \<open>Inserted\<close> only for a hash value that was not present.)
\<close>

theorem probe_inserted_then_find:
  assumes "reachable t" and "hv \<noteq> 0"
    and "ht_probe t hv v salt = Some (Inserted, t')"
  shows "ht_find t' hv = Some (Found v, t')"
proof -
  from assms(1) have inv: "ht_inv t" by (rule reachable_inv)
  from ht_probe_inv(1) [OF inv assms(3)] have inv': "ht_inv t'" .
  from ht_probe_inv(3) [OF inv assms(3)]
  have "live (all_slots t') = live (all_slots t) + live [\<lparr>hn_h = hv, hn_v = v\<rparr>]" by simp
  then have "present t' hv v" using assms(2) by (rule present_after_insert(1))
  with inv' show ?thesis by (rule ht_find_present)
qed

theorem probe_inserted_then_find_witness:
  "reachable grow2 \<and> (3 :: u64) \<noteq> 0 \<and> ht_probe grow2 3 103 0 = Some (Inserted, grow3)
   \<and> ht_find grow3 3 = Some (Found 103, grow3)"
proof -
  have i: "ht_init 2 0 = Some grow0" by code_simp
  have p1: "ht_probe grow0 1 101 0 = Some (Inserted, grow1)" by code_simp
  have p2: "ht_probe grow1 2 102 0 = Some (Inserted, grow2)" by code_simp
  have p3: "ht_probe grow2 3 103 0 = Some (Inserted, grow3)" by code_simp
  have r: "reachable grow2" by (rule r_probe [OF r_probe [OF r_init [OF i] p1] p2])
  have nz: "(3 :: u64) \<noteq> 0" by simp
  from probe_inserted_then_find [OF r nz p3] r nz p3 show ?thesis by simp
qed

text \<open>
  C2. In every reachable state, so also in the states reached from \<^verbatim>\<open>ht_init(h, 2)\<close> with
  its 4 buckets, when the probe of a nonzero hash value inserts it and crosses the fill
  threshold (\<open>FILLPCT\<close> is 50), the table that the probe returns has twice the buckets,
  every hash value that was present is found in it with the value it had, and so is the
  hash value just inserted.
\<close>

theorem growth_doubles_and_keeps:
  assumes "reachable t" and "hv \<noteq> 0" and "crosses t hv"
    and "ht_probe t hv v salt = Some (Inserted, t')"
  shows "length (ht_b t') = 2 * length (ht_b t) \<and> ht_n t' = 2 * ht_n t
       \<and> (\<forall>hv' v'. present t hv' v' \<longrightarrow> ht_find t' hv' = Some (Found v', t'))
       \<and> ht_find t' hv = Some (Found v, t')"
proof -
  let ?p = "\<lparr>hn_h = hv, hn_v = v\<rparr>"
  from assms(1) have inv: "ht_inv t" by (rule reachable_inv)
  from ht_probe_keeps_or_doubles [OF assms(1,4)] assms(3)
  have len: "length (ht_b t') = 2 * length (ht_b t)" by simp
  from inv have "unat (ht_n t) = length (ht_b t)" by (simp add: ht_inv_def shaped_n)
  moreover from ht_probe_inv(1) [OF inv assms(4)] have inv': "ht_inv t'" .
  then have "unat (ht_n t') = length (ht_b t')" by (simp add: ht_inv_def shaped_n)
  ultimately have "unat (ht_n t') = 2 * unat (ht_n t)" using len by simp
  then have "(word_of_nat (unat (ht_n t')) :: u64) = word_of_nat (2 * unat (ht_n t))"
    by (simp only:)
  then have n: "ht_n t' = 2 * ht_n t" by simp
  from ht_probe_inv(3) [OF inv assms(4)]
  have live': "live (all_slots t') = live (all_slots t) + live [?p]" by simp
  have "ht_find t' hv' = Some (Found v', t')" if "present t hv' v'" for hv' v'
    using inv' present_after_insert(2) [OF live' that] by (rule ht_find_present)
  moreover have "ht_find t' hv = Some (Found v, t')"
    using inv' present_after_insert(1) [OF live' assms(2)] by (rule ht_find_present)
  ultimately show ?thesis using len n by blast
qed

theorem growth_doubles_and_keeps_witness:
  "ht_init 2 0 = Some grow0 \<and> length (ht_b grow0) = 4 \<and> FILLPCT = 50
   \<and> reachable grow2 \<and> (3 :: u64) \<noteq> 0 \<and> crosses grow2 3
   \<and> ht_probe grow2 3 103 0 = Some (Inserted, grow3)
   \<and> length (ht_b grow2) = 4 \<and> length (ht_b grow3) = 8
   \<and> present grow2 1 101 \<and> ht_find grow3 1 = Some (Found 101, grow3)
   \<and> present grow2 2 102 \<and> ht_find grow3 2 = Some (Found 102, grow3)
   \<and> ht_find grow3 3 = Some (Found 103, grow3)"
proof -
  have i: "ht_init 2 0 = Some grow0" by code_simp
  have p1: "ht_probe grow0 1 101 0 = Some (Inserted, grow1)" by code_simp
  have p2: "ht_probe grow1 2 102 0 = Some (Inserted, grow2)" by code_simp
  have p3: "ht_probe grow2 3 103 0 = Some (Inserted, grow3)" by code_simp
  have r: "reachable grow2" by (rule r_probe [OF r_probe [OF r_init [OF i] p1] p2])
  have nz: "(3 :: u64) \<noteq> 0" by simp
  have c: "crosses grow2 3" by code_simp
  have l0: "length (ht_b grow0) = 4" by code_simp
  have l2: "length (ht_b grow2) = 4" by code_simp
  have pr1: "present grow2 1 101" unfolding present_def all_slots_def chain_slots_def by code_simp
  have pr2: "present grow2 2 102" unfolding present_def all_slots_def chain_slots_def by code_simp
  from growth_doubles_and_keeps [OF r nz c p3] i l0 r nz c p3 l2 pr1 pr2
  show ?thesis by (simp add: FILLPCT_def)
qed

text \<open>
  C3. In every reachable state, when the nonzero hash value \<open>hv\<close> is present with the
  value \<open>v1\<close>, a probe of \<open>hv\<close> with any value \<open>v2\<close> returns \<open>Exists\<close> and writes
  nothing, and a find of \<open>hv\<close> that follows it returns \<open>Found v1\<close>.
\<close>

theorem probe_existing_keeps_value:
  assumes "reachable t" and "present t hv v1"
  shows "\<exists>t'. ht_probe t hv v2 salt = Some (Exists, t') \<and> t' = t
            \<and> ht_find t' hv = Some (Found v1, t')"
proof -
  from assms(1) have inv: "ht_inv t" by (rule reachable_inv)
  from inv assms(2) have "ht_probe t hv v2 salt = Some (Exists, t)" by (rule ht_probe_present)
  moreover from inv assms(2) have "ht_find t hv = Some (Found v1, t)" by (rule ht_find_present)
  ultimately show ?thesis by simp
qed

theorem probe_existing_keeps_value_witness:
  "reachable grow1 \<and> present grow1 1 101
   \<and> (\<exists>t'. ht_probe grow1 1 999 7 = Some (Exists, t') \<and> t' = grow1
           \<and> ht_find t' 1 = Some (Found 101, t'))"
proof -
  have i: "ht_init 2 0 = Some grow0" by code_simp
  have p1: "ht_probe grow0 1 101 0 = Some (Inserted, grow1)" by code_simp
  have r: "reachable grow1" by (rule r_probe [OF r_init [OF i] p1])
  have pr: "present grow1 1 101" unfolding present_def all_slots_def chain_slots_def by code_simp
  from probe_existing_keeps_value [OF r pr, of 999 7] r pr show ?thesis by simp
qed

text \<open>
  C4. In every reachable state, when the nonzero hash value \<open>hv\<close> is present with the
  value \<open>v\<close>, a remove of \<open>hv\<close> returns \<open>Found v\<close>; after it a find of \<open>hv\<close> returns
  \<open>NotFound\<close>, and so does a second remove.
\<close>

theorem remove_present_then_gone:
  assumes "reachable t" and "present t hv v"
  shows "\<exists>t'. ht_remove t hv = Some (Found v, t')
            \<and> ht_find t' hv = Some (NotFound, t')
            \<and> ht_remove t' hv = Some (NotFound, t')"
proof -
  from assms(1) have inv: "ht_inv t" by (rule reachable_inv)
  from assms(2) have nz: "hv \<noteq> 0" by (simp add: present_def)
  from ht_findx_present [OF inv assms(2), of True]
  obtain t' where rm: "ht_findx t hv True = Some (Found v, t')" by blast
  from inv rm have inv': "ht_inv t'" by (rule ht_findx_inv)
  then have sh: "shaped t'" by (simp add: ht_inv_def)
  from inv rm nz have ab: "absent t' hv" by (rule ht_remove_absent)
  from sh ab nz have "ht_findx t' hv z = Some (NotFound, t')" for z by (rule ht_findx_absent)
  with rm show ?thesis by (simp add: ht_remove_def ht_find_def)
qed

theorem remove_present_then_gone_witness:
  "reachable single \<and> present single 11 111
   \<and> (\<exists>t'. ht_remove single 11 = Some (Found 111, t')
           \<and> ht_find t' 11 = Some (NotFound, t')
           \<and> ht_remove t' 11 = Some (NotFound, t'))"
proof -
  have i: "ht_init 2 0 = Some grow0" by code_simp
  have p1: "ht_probe grow0 11 111 0 = Some (Inserted, single)" by code_simp
  have r: "reachable single" by (rule r_probe [OF r_init [OF i] p1])
  have pr: "present single 11 111" unfolding present_def all_slots_def chain_slots_def by code_simp
  from remove_present_then_gone [OF r pr] r pr show ?thesis by simp
qed

text \<open>
  C5, as amended. On every probe that inserts a fresh node: the resize engine is invoked
  (and \<^verbatim>\<open>h->splits\<close> incremented) exactly when the probe crosses the threshold, that is
  when the count of the target bucket becomes 1 and the fill, incremented for it, makes
  \<^verbatim>\<open>(h->fill * 100) / (1 + h->n)\<close> exceed \<^verbatim>\<open>FILLPCT\<close>; the table that is resized
  has the incremented fill. Without a resize the bucket array keeps its length, the count
  of the target bucket has grown by 1, and the fill has grown by 1 if that count is now
  1 and is unchanged otherwise. In a reachable state a bucket whose count is 0 has no
  slot at all: it was empty.
\<close>

theorem probe_fill_and_resize:
  assumes "ht_probe t hv v salt = Some (Inserted, t')"
  shows "ht_splits t' = ht_splits t + (if crosses t hv then 1 else 0)
       \<and> (if crosses t hv
          then \<exists>t2 t3. ht_fill t2 = ht_fill t + 1 \<and> ht_n t2 = ht_n t
                 \<and> hb_n (ht_b t2 ! bucket_of t hv) = 1
                 \<and> resize t2 salt = Some t3
                 \<and> t' = upd_stats t3 (ht_b t3 ! bucket_of t3 hv)
          else ht_n t' = ht_n t \<and> length (ht_b t') = length (ht_b t)
             \<and> hb_n (ht_b t' ! bucket_of t hv) = hb_n (ht_b t ! bucket_of t hv) + 1
             \<and> ht_fill t' = (if hb_n (ht_b t' ! bucket_of t hv) = 1 then ht_fill t + 1
                              else ht_fill t))
       \<and> (reachable t \<and> hb_n (ht_b t ! bucket_of t hv) = 0
            \<longrightarrow> chain_slots (ht_b t ! bucket_of t hv) = [])"
proof -
  let ?i = "bucket_of t hv"
  let ?b' = "hb_insert_quick (ht_b t ! ?i) \<lparr>hn_h = hv, hn_v = v\<rparr>"
  let ?t1 = "t\<lparr>ht_b := (ht_b t)[?i := ?b'], ht_nodes := ht_nodes t + 1\<rparr>"
  note P = ht_probe_Inserted [OF assms]
  have n': "hb_n ?b' = hb_n (ht_b t ! ?i) + 1" by (rule hb_insert_quick_n)
  have sp: "ht_splits t' = ht_splits t + (if crosses t hv then 1 else 0)"
    using assms by (rule ht_probe_splits)
  have em: "reachable t \<and> hb_n (ht_b t ! ?i) = 0 \<longrightarrow> chain_slots (ht_b t ! ?i) = []"
    using reachable_bucket_shape(3) [OF _ P(1)] by blast
  show ?thesis
  proof (cases "crosses t hv")
    case True
    then have c: "hb_n (ht_b t ! ?i) = 0
         \<and> FILLPCT < ((ht_fill t + 1) * 100) div unat (1 + ht_n t)" by (simp add: crosses_def)
    let ?t2 = "?t1\<lparr>ht_fill := ht_fill t + 1, ht_splits := ht_splits t + 1\<rparr>"
    from P(4) [OF c] obtain t3 where "resize ?t2 salt = Some t3"
      "t' = upd_stats t3 (ht_b t3 ! bucket_of t3 hv)" by blast
    moreover have "ht_fill ?t2 = ht_fill t + 1" "ht_n ?t2 = ht_n t" by simp_all
    moreover have "hb_n (ht_b ?t2 ! ?i) = 1" using P(1) c n' by simp
    ultimately have "\<exists>t2 t3. ht_fill t2 = ht_fill t + 1 \<and> ht_n t2 = ht_n t
                 \<and> hb_n (ht_b t2 ! ?i) = 1 \<and> resize t2 salt = Some t3
                 \<and> t' = upd_stats t3 (ht_b t3 ! bucket_of t3 hv)" by blast
    with True sp em show ?thesis by simp
  next
    case False
    then have c: "\<not> (hb_n (ht_b t ! ?i) = 0
         \<and> FILLPCT < ((ht_fill t + 1) * 100) div unat (1 + ht_n t))" by (simp add: crosses_def)
    from P(5) [OF c] P(1) n' have "ht_n t' = ht_n t" "length (ht_b t') = length (ht_b t)"
      "hb_n (ht_b t' ! ?i) = hb_n (ht_b t ! ?i) + 1"
      "ht_fill t' = (if hb_n (ht_b t ! ?i) = 0 then ht_fill t + 1 else ht_fill t)"
      by simp_all
    with False sp em show ?thesis by simp
  qed
qed

theorem probe_fill_and_resize_witness:
  "ht_probe grow2 3 103 0 = Some (Inserted, grow3) \<and> crosses grow2 3
   \<and> ht_splits grow3 = ht_splits grow2 + 1
   \<and> reachable grow2 \<and> hb_n (ht_b grow2 ! bucket_of grow2 3) = 0
   \<and> chain_slots (ht_b grow2 ! bucket_of grow2 3) = []
   \<and> ht_probe grow0 1 101 0 = Some (Inserted, grow1) \<and> \<not> crosses grow0 1
   \<and> ht_splits grow1 = ht_splits grow0 \<and> ht_fill grow1 = ht_fill grow0 + 1
   \<and> ht_probe dense3 4 104 0 = Some (Inserted, dense4) \<and> \<not> crosses dense3 4
   \<and> ht_splits dense4 = ht_splits dense3 \<and> ht_fill dense4 = ht_fill dense3"
proof -
  have i: "ht_init 2 0 = Some grow0" by code_simp
  have p1: "ht_probe grow0 1 101 0 = Some (Inserted, grow1)" by code_simp
  have p2: "ht_probe grow1 2 102 0 = Some (Inserted, grow2)" by code_simp
  have p3: "ht_probe grow2 3 103 0 = Some (Inserted, grow3)" by code_simp
  have r: "reachable grow2" by (rule r_probe [OF r_probe [OF r_init [OF i] p1] p2])
  have c3: "crosses grow2 3" by code_simp
  then have n3: "hb_n (ht_b grow2 ! bucket_of grow2 3) = 0" by (simp add: crosses_def)
  have c1: "\<not> crosses grow0 1" by code_simp
  have p4: "ht_probe dense3 4 104 0 = Some (Inserted, dense4)" by code_simp
  have c4: "\<not> crosses dense3 4" by code_simp
  have n1: "hb_n (ht_b grow1 ! bucket_of grow0 1) = 1" by code_simp
  have n4: "hb_n (ht_b dense4 ! bucket_of dense3 4) = 2" by code_simp
  from probe_fill_and_resize [OF p3] probe_fill_and_resize [OF p1] probe_fill_and_resize [OF p4]
    p3 c3 r n3 p1 c1 p4 c4 n1 n4
  show ?thesis by simp
qed

text \<open>
  C5 without the amendment fails: the test of the fill ratio is nested in the test
  \<^verbatim>\<open>b->n == 1\<close>.
  In the table \<open>dense3\<close> three of the 4 buckets are filled, so the ratio is 60 and exceeds
  the threshold of 50; the probe of the fresh hash value 4 goes to a bucket that holds a
  node already, and returns without a resize.
\<close>

theorem probe_fill_and_resize_counterexample:
  "reachable dense3
   \<and> ht_probe dense3 4 104 0 = Some (Inserted, dense4)
   \<and> FILLPCT < (ht_fill dense4 * 100) div unat (1 + ht_n dense4)
   \<and> ht_splits dense4 = ht_splits dense3
   \<and> length (ht_b dense4) = length (ht_b dense3)"
proof -
  have i: "ht_init 1 0 = Some dense0" by code_simp
  have p1: "ht_probe dense0 2 102 0 = Some (Inserted, dense1)" by code_simp
  have p2: "ht_probe dense1 3 103 0 = Some (Inserted, dense2)" by code_simp
  have p3: "ht_probe dense2 1 101 0 = Some (Inserted, dense3)" by code_simp
  have r: "reachable dense3" by (rule r_probe [OF r_probe [OF r_probe [OF r_init [OF i] p1] p2] p3])
  have p4: "ht_probe dense3 4 104 0 = Some (Inserted, dense4)" by code_simp
  have f: "FILLPCT < (ht_fill dense4 * 100) div unat (1 + ht_n dense4)" by code_simp
  have s: "ht_splits dense4 = ht_splits dense3" by code_simp
  have l: "length (ht_b dense4) = length (ht_b dense3)" by code_simp
  from r p4 f s l show ?thesis by simp
qed

text \<open>
  C6. In every reachable state, a remove of a present hash value \<open>hv\<close> returns the state
  in which one slot, which held \<open>hv\<close> and its value, holds the constant \<open>zn\<close> (hash
  value 0, null pointer) and nothing else differs: the count \<^verbatim>\<open>n\<close> and the number of
  bags of every bucket, \<^verbatim>\<open>h->nodes\<close> and \<^verbatim>\<open>h->fill\<close> are what they were.
\<close>

theorem remove_clears_one_slot:
  assumes "reachable t" and "present t hv v"
  shows "\<exists>t' i k j. ht_remove t hv = Some (Found v, t')
           \<and> i < length (ht_b t) \<and> k < length (hb_head (ht_b t ! i))
           \<and> j < length (hb_head (ht_b t ! i) ! k)
           \<and> hb_head (ht_b t ! i) ! k ! j = \<lparr>hn_h = hv, hn_v = v\<rparr>
           \<and> t' = t\<lparr>ht_b := (ht_b t)[i := (ht_b t ! i)
                    \<lparr>hb_head := (hb_head (ht_b t ! i))[k := (hb_head (ht_b t ! i) ! k)[j := zn]]\<rparr>]\<rparr>
           \<and> map hb_n (ht_b t') = map hb_n (ht_b t)
           \<and> map hb_bags (ht_b t') = map hb_bags (ht_b t)
           \<and> ht_nodes t' = ht_nodes t \<and> ht_fill t' = ht_fill t"
proof -
  from assms(1) have inv: "ht_inv t" by (rule reachable_inv)
  from ht_findx_present [OF inv assms(2), of True]
  obtain t' where rm: "ht_findx t hv True = Some (Found v, t')" by blast
  let ?i = "bucket_of t hv"
  let ?gs = "hb_head (ht_b t ! ?i)"
  from rm obtain k j where lt: "?i < length (ht_b t)"
    and kj: "k < length ?gs" "j < length (?gs ! k)"
    and eq: "?gs ! k ! j = \<lparr>hn_h = hv, hn_v = v\<rparr>"
    and t': "t' = t\<lparr>ht_b := (ht_b t)[?i := (ht_b t ! ?i)\<lparr>hb_head := ?gs[k := (?gs ! k)[j := zn]]\<rparr>]\<rparr>"
    by (rule ht_findx_Found) simp
  have "map hb_n (ht_b t') = map hb_n (ht_b t)" "map hb_bags (ht_b t') = map hb_bags (ht_b t)"
    using lt by (simp_all add: t' map_update list_update_same_conv)
  moreover have "ht_nodes t' = ht_nodes t" "ht_fill t' = ht_fill t" by (simp_all add: t')
  ultimately show ?thesis using rm lt kj eq t' unfolding ht_remove_def by blast
qed

theorem remove_clears_one_slot_witness:
  "reachable single \<and> present single 11 111
   \<and> (\<exists>t' i k j. ht_remove single 11 = Some (Found 111, t')
           \<and> i < length (ht_b single) \<and> k < length (hb_head (ht_b single ! i))
           \<and> j < length (hb_head (ht_b single ! i) ! k)
           \<and> hb_head (ht_b single ! i) ! k ! j = \<lparr>hn_h = 11, hn_v = 111\<rparr>
           \<and> t' = single\<lparr>ht_b := (ht_b single)[i := (ht_b single ! i)
                    \<lparr>hb_head := (hb_head (ht_b single ! i))
                       [k := (hb_head (ht_b single ! i) ! k)[j := zn]]\<rparr>]\<rparr>
           \<and> map hb_n (ht_b t') = map hb_n (ht_b single)
           \<and> map hb_bags (ht_b t') = map hb_bags (ht_b single)
           \<and> ht_nodes t' = ht_nodes single \<and> ht_fill t' = ht_fill single)"
proof -
  have i: "ht_init 2 0 = Some grow0" by code_simp
  have p1: "ht_probe grow0 11 111 0 = Some (Inserted, single)" by code_simp
  have r: "reachable single" by (rule r_probe [OF r_init [OF i] p1])
  have pr: "present single 11 111" unfolding present_def all_slots_def chain_slots_def by code_simp
  from remove_clears_one_slot [OF r pr] r pr show ?thesis by simp
qed

text \<open>
  C7. After any history of calls on a freshly initialised table, \<^verbatim>\<open>h->nodes\<close> is the
  number of probes of the history that returned \<open>Inserted\<close>; and a resize returns a table
  with the \<^verbatim>\<open>h->nodes\<close> it was given. (By \<open>reachable_run\<close> the histories reach every
  reachable state.)
\<close>

theorem nodes_counts_inserted:
  "(ht_init nlog2 salt = Some t0 \<and> run t0 cs = Some (rs, t)
      \<longrightarrow> ht_nodes t = length (filter (\<lambda>r. r = Probed Inserted) rs))
   \<and> (resize t1 salt1 = Some t2 \<longrightarrow> ht_nodes t2 = ht_nodes t1)"
proof (intro conjI impI)
  assume a: "ht_init nlog2 salt = Some t0 \<and> run t0 cs = Some (rs, t)"
  then have "ht_nodes t0 = 0" by (auto simp: ht_init_def Let_def split: if_splits)
  with a run_nodes [of t0 cs rs t]
  show "ht_nodes t = length (filter (\<lambda>r. r = Probed Inserted) rs)" by simp
next
  assume "resize t1 salt1 = Some t2"
  then show "ht_nodes t2 = ht_nodes t1" by (rule resize_Some(6))
qed

theorem nodes_counts_inserted_witness:
  "ht_init 2 0 = Some grow0
   \<and> run grow0 history = Some ([Probed Inserted, Probed Exists, Probed Inserted,
        Looked (Found 101), Probed Inserted, Looked (Found 102)], after_history)
   \<and> ht_nodes after_history = 3
   \<and> resize grow2 5 = Some regrown \<and> ht_nodes regrown = ht_nodes grow2"
proof -
  have i: "ht_init 2 0 = Some grow0" by code_simp
  have h: "run grow0 history = Some ([Probed Inserted, Probed Exists, Probed Inserted,
        Looked (Found 101), Probed Inserted, Looked (Found 102)], after_history)" by code_simp
  have g: "resize grow2 5 = Some regrown" by code_simp
  from nodes_counts_inserted [of 2 0 grow0 history _ after_history grow2 5 regrown] i h g
  show ?thesis by simp
qed

text \<open>
  C8. The specification gives \<^verbatim>\<open>init\<close> \<open>2 ^ size_log2\<close> buckets for every \<open>size_log2\<close>.
  At 31 the shift \<^verbatim>\<open>1 << nlog2\<close> overflows the \<^verbatim>\<open>int\<close> it is computed in, and
  \<^verbatim>\<open>ht_init\<close> has no defined result, so no table of \<open>2 ^ 31\<close> buckets. (Up to 30 it has,
  and the length of the bucket array stays a power of two: \<open>ht_init_buckets\<close>,
  \<open>reachable_power_of_two\<close>, \<open>ht_probe_keeps_or_doubles\<close>.)
\<close>

theorem ht_init_31_undefined: "ht_init 31 salt = None"
  by (simp add: ht_init_def INT_MAX_def)

text \<open>
  C9, as amended. In every reachable state, for every nonzero hash value \<open>hv\<close> that no
  live node holds, a find and a remove of \<open>hv\<close> return \<open>NotFound\<close> and return the state
  they were given: no later operation can tell that they were called.
\<close>

theorem absent_not_found:
  assumes "reachable t" and "hv \<noteq> 0" and "absent t hv"
  shows "ht_find t hv = Some (NotFound, t) \<and> ht_remove t hv = Some (NotFound, t)"
proof -
  from assms(1) have "ht_inv t" by (rule reachable_inv)
  then have sh: "shaped t" by (simp add: ht_inv_def)
  from sh assms(3,2) have "ht_findx t hv z = Some (NotFound, t)" for z by (rule ht_findx_absent)
  then show ?thesis by (simp add: ht_find_def ht_remove_def)
qed

theorem absent_not_found_witness:
  "reachable single \<and> (5 :: u64) \<noteq> 0 \<and> absent single 5
   \<and> ht_find single 5 = Some (NotFound, single) \<and> ht_remove single 5 = Some (NotFound, single)"
proof -
  have i: "ht_init 2 0 = Some grow0" by code_simp
  have p1: "ht_probe grow0 11 111 0 = Some (Inserted, single)" by code_simp
  have r: "reachable single" by (rule r_probe [OF r_init [OF i] p1])
  have nz: "(5 :: u64) \<noteq> 0" by simp
  have ab: "absent single 5" unfolding absent_def all_slots_def chain_slots_def by code_simp
  from absent_not_found [OF r nz ab] r nz ab show ?thesis by simp
qed

text \<open>
  C9 without the amendment fails for the hash value 0, which no live node ever holds: in
  the table
  \<open>single\<close> the bucket of 0 has a bag with free slots, the scan of \<^verbatim>\<open>__findx\<close> stops
  at the first of them, and the find returns 1 with the null pointer.
\<close>

theorem absent_zero_found_counterexample:
  "reachable single \<and> absent single 0 \<and> ht_find single 0 = Some (Found 0, single)"
proof -
  have i: "ht_init 2 0 = Some grow0" by code_simp
  have p1: "ht_probe grow0 11 111 0 = Some (Inserted, single)" by code_simp
  have r: "reachable single" by (rule r_probe [OF r_init [OF i] p1])
  have ab: "absent single 0" by (simp add: absent_def)
  have f: "ht_find single 0 = Some (Found 0, single)" by code_simp
  from r ab f show ?thesis by simp
qed

text \<open>
  C10. In every reachable state, a nonzero hash value is the hash value of at most one
  slot among all the slots of all the bags of all the buckets.
\<close>

theorem nonzero_hash_in_one_slot:
  assumes "reachable t" and "hv \<noteq> 0"
  shows "length (filter (\<lambda>x. hn_h x = hv) (all_slots t)) \<le> 1"
proof -
  from assms(1) have "ht_inv t" by (rule reachable_inv)
  then have "uniq (live (all_slots t))" by (simp add: ht_inv_def)
  then show ?thesis using assms(2) by (rule uniq_slots)
qed

theorem nonzero_hash_in_one_slot_witness:
  "reachable grow3 \<and> (3 :: u64) \<noteq> 0
   \<and> length (filter (\<lambda>x. hn_h x = 3) (all_slots grow3)) \<le> 1"
proof -
  have i: "ht_init 2 0 = Some grow0" by code_simp
  have p1: "ht_probe grow0 1 101 0 = Some (Inserted, grow1)" by code_simp
  have p2: "ht_probe grow1 2 102 0 = Some (Inserted, grow2)" by code_simp
  have p3: "ht_probe grow2 3 103 0 = Some (Inserted, grow3)" by code_simp
  have r: "reachable grow3" by (rule r_probe [OF r_probe [OF r_probe [OF r_init [OF i] p1] p2] p3])
  have nz: "(3 :: u64) \<noteq> 0" by simp
  from nonzero_hash_in_one_slot [OF r nz] r nz show ?thesis by simp
qed

end
